theory Spec2Isabelle
  imports Complex_Main
begin

section \<open>TaskManager: data model\<close>

text \<open>
  Python strings are sequences of Unicode code points, so a string is a list of code
  points. The classification of code points that \<open>re\<close> and \<open>str.strip\<close> consult
  (the interpreter's Unicode character database) is not part of the repository; it is a
  parameter of every function that uses it.
\<close>

type_synonym ustr = "nat list"

record ucd =
  isdecimal :: "nat \<Rightarrow> bool"
  isalnum :: "nat \<Rightarrow> bool"
  isspace :: "nat \<Rightarrow> bool"
  decimal :: "nat \<Rightarrow> nat"

text \<open>\<open>datetime.time\<close>: naive time of day; comparison is the comparison of the tuples
  \<open>(hour, minute, second, microsecond)\<close>.\<close>

record dtime =
  hour :: nat
  minute :: nat
  second :: nat
  microsecond :: nat

definition time_le :: "dtime \<Rightarrow> dtime \<Rightarrow> bool" where
  "time_le a b =
     (hour a < hour b \<or> (hour a = hour b \<and>
       (minute a < minute b \<or> (minute a = minute b \<and>
         (second a < second b \<or> (second a = second b \<and>
           microsecond a \<le> microsecond b))))))"

record task =
  time :: dtime
  description :: ustr

text \<open>\<open>Task.should_notify\<close>: \<open>now >= self.time\<close>, with the clock reading \<open>now\<close> made an
  argument.\<close>

definition should_notify :: "dtime \<Rightarrow> task \<Rightarrow> bool" where
  "should_notify now t = time_le (time t) now"

text \<open>A time of day the \<open>datetime.time\<close> constructor admits, and its position in the day
  in microseconds.\<close>

definition valid_time :: "dtime \<Rightarrow> bool" where
  "valid_time a = (hour a < 24 \<and> minute a < 60 \<and> second a < 60 \<and> microsecond a < 1000000)"

definition micros :: "dtime \<Rightarrow> nat" where
  "micros a = ((hour a * 60 + minute a) * 60 + second a) * 1000000 + microsecond a"

text \<open>Exceptions as values. \<open>CancelledError\<close> and \<open>KeyboardInterrupt\<close> derive from
  \<open>BaseException\<close> only; the others are subclasses of \<open>Exception\<close>
  (\<open>PermissionError\<close> is an \<open>OSError\<close>).\<close>

datatype exn = ValueError | OSError | PermissionError | RuntimeError
  | CancelledError | KeyboardInterrupt

fun is_Exception :: "exn \<Rightarrow> bool" where
  "is_Exception CancelledError = False"
| "is_Exception KeyboardInterrupt = False"
| "is_Exception _ = True"

text \<open>What the functions below rely on in the character database: on ASCII (code points
  below 128) the classes are the familiar ones; a decimal digit is alphanumeric and has a
  value of at most 9; whitespace is not alphanumeric.\<close>

definition ucd_ok :: "ucd \<Rightarrow> bool" where
  "ucd_ok U =
     ((\<forall>c<128. isdecimal U c = (48 \<le> c \<and> c \<le> 57))
    \<and> (\<forall>c<128. isalnum U c = ((48 \<le> c \<and> c \<le> 57) \<or> (65 \<le> c \<and> c \<le> 90) \<or> (97 \<le> c \<and> c \<le> 122)))
    \<and> (\<forall>c<128. isspace U c = ((9 \<le> c \<and> c \<le> 13) \<or> (28 \<le> c \<and> c \<le> 32)))
    \<and> (\<forall>c. 48 \<le> c \<and> c \<le> 57 \<longrightarrow> decimal U c = c - 48)
    \<and> (\<forall>c. isdecimal U c \<longrightarrow> isalnum U c \<and> decimal U c \<le> 9)
    \<and> (\<forall>c. isspace U c \<longrightarrow> \<not> isalnum U c \<and> c \<noteq> 95))"

text \<open>An excerpt of the database, enough for the examples: ASCII, the Arabic-Indic digits
  (U+0660 to U+0669), the Cyrillic letters U+0410 to U+044F, and the whitespace code
  points.\<close>

definition ucd_sample :: ucd where
  "ucd_sample =
     \<lparr>isdecimal = (\<lambda>c. (48 \<le> c \<and> c \<le> 57) \<or> (1632 \<le> c \<and> c \<le> 1641)),
      isalnum = (\<lambda>c. (48 \<le> c \<and> c \<le> 57) \<or> (65 \<le> c \<and> c \<le> 90) \<or> (97 \<le> c \<and> c \<le> 122)
                     \<or> (1040 \<le> c \<and> c \<le> 1103) \<or> (1632 \<le> c \<and> c \<le> 1641)),
      isspace = (\<lambda>c. (9 \<le> c \<and> c \<le> 13) \<or> (28 \<le> c \<and> c \<le> 32) \<or> c = 133 \<or> c = 160
                     \<or> c = 5760 \<or> (8192 \<le> c \<and> c \<le> 8202) \<or> c = 8232 \<or> c = 8233
                     \<or> c = 8239 \<or> c = 8287 \<or> c = 12288),
      decimal = (\<lambda>c. if c < 1632 then c - 48 else c - 1632)\<rparr>"

section \<open>String primitives\<close>

text \<open>\<open>str.strip(chars)\<close> and \<open>str.strip()\<close>: characters of the given class are removed
  from both ends.\<close>

definition strip_with :: "(nat \<Rightarrow> bool) \<Rightarrow> ustr \<Rightarrow> ustr" where
  "strip_with P s = rev (dropWhile P (rev (dropWhile P s)))"

definition strip :: "ucd \<Rightarrow> ustr \<Rightarrow> ustr" where
  "strip U s = strip_with (isspace U) s"

text \<open>\<open>.strip(' -')\<close>: space is 32, hyphen-minus is 45.\<close>

definition strip_sp_hy :: "ustr \<Rightarrow> ustr" where
  "strip_sp_hy s = strip_with (\<lambda>c. c = 32 \<or> c = 45) s"

text \<open>\<open>text.split('\n')\<close>: the pieces between line feeds (code point 10); never empty.\<close>

fun split_nl :: "ustr \<Rightarrow> ustr list" where
  "split_nl [] = [[]]"
| "split_nl (c # cs) =
     (if c = 10 then [] # split_nl cs
      else (case split_nl cs of l # ls \<Rightarrow> (c # l) # ls | [] \<Rightarrow> [[c]]))"

text \<open>\<open>line.startswith('#')\<close>: number sign is 35.\<close>

fun startswith_hash :: "ustr \<Rightarrow> bool" where
  "startswith_hash (c # _) = (c = 35)"
| "startswith_hash [] = False"

text \<open>\<open>re.sub(r'\s+', ' ', s)\<close>: every maximal run of whitespace becomes one space. The
  flag says whether the previous character belonged to a run.\<close>

fun sub_spaces :: "ucd \<Rightarrow> bool \<Rightarrow> ustr \<Rightarrow> ustr" where
  "sub_spaces U in_run [] = []"
| "sub_spaces U in_run (c # cs) =
     (if isspace U c then (if in_run then sub_spaces U True cs else 32 # sub_spaces U True cs)
      else c # sub_spaces U False cs)"

text \<open>\<open>int(s)\<close> on a string of decimal digits.\<close>

definition int_of_digits :: "ucd \<Rightarrow> ustr \<Rightarrow> nat" where
  "int_of_digits U s = foldl (\<lambda>a c. 10 * a + decimal U c) 0 s"

section \<open>The time pattern\<close>

text \<open>\<open>\w\<close> is an alphanumeric code point or the underscore (95); \<open>\b\<close> holds between two
  positions of which exactly one is a word character, the ends of the string counting as
  non-word.\<close>

definition is_word :: "ucd \<Rightarrow> nat \<Rightarrow> bool" where
  "is_word U c = (isalnum U c \<or> c = 95)"

fun word_at :: "ucd \<Rightarrow> nat option \<Rightarrow> bool" where
  "word_at U None = False"
| "word_at U (Some c) = is_word U c"

definition boundary :: "ucd \<Rightarrow> nat option \<Rightarrow> nat option \<Rightarrow> bool" where
  "boundary U prev nxt = (word_at U prev \<noteq> word_at U nxt)"

fun headc :: "ustr \<Rightarrow> nat option" where
  "headc [] = None"
| "headc (c # _) = Some c"

text \<open>The search pattern \<open>\b([01]?\d|2[0-3]):([0-5]\d)\b\<close>. Colon is 58, the digits
  \<open>0\<close> to \<open>9\<close> are 48 to 57. \<open>match_minutes\<close> is the part \<open>:([0-5]\d)\b\<close>; the three
  hour functions are the ways the first group can match, in the order the backtracking
  matcher tries them: \<open>[01]\<close> present, \<open>[01]\<close> absent, then the second alternative.\<close>

fun match_minutes :: "ucd \<Rightarrow> ustr \<Rightarrow> bool" where
  "match_minutes U (c1 # c2 # c3 # rest) =
     (c1 = 58 \<and> 48 \<le> c2 \<and> c2 \<le> 53 \<and> isdecimal U c3 \<and> boundary U (Some c3) (headc rest))"
| "match_minutes U _ = False"

fun hour_01d :: "ucd \<Rightarrow> ustr \<Rightarrow> bool" where
  "hour_01d U (h1 # h2 # rest) = ((h1 = 48 \<or> h1 = 49) \<and> isdecimal U h2 \<and> match_minutes U rest)"
| "hour_01d U _ = False"

fun hour_d :: "ucd \<Rightarrow> ustr \<Rightarrow> bool" where
  "hour_d U (h # rest) = (isdecimal U h \<and> match_minutes U rest)"
| "hour_d U _ = False"

fun hour_2x :: "ucd \<Rightarrow> ustr \<Rightarrow> bool" where
  "hour_2x U (h1 # h2 # rest) = (h1 = 50 \<and> 48 \<le> h2 \<and> h2 \<le> 51 \<and> match_minutes U rest)"
| "hour_2x U _ = False"

text \<open>A match attempt at one position: \<open>prev\<close> is the character before the position,
  \<open>cs\<close> the rest of the string from it. The result is the length of the match.\<close>

definition match_time :: "ucd \<Rightarrow> nat option \<Rightarrow> ustr \<Rightarrow> nat option" where
  "match_time U prev cs =
     (if \<not> boundary U prev (headc cs) then None
      else if hour_01d U cs then Some 5
      else if hour_d U cs then Some 4
      else if hour_2x U cs then Some 5
      else None)"

text \<open>\<open>re.search\<close>: the leftmost position with a match, as (start, length).\<close>

fun re_search :: "ucd \<Rightarrow> nat option \<Rightarrow> ustr \<Rightarrow> (nat \<times> nat) option" where
  "re_search U prev [] = None"
| "re_search U prev (c # cs) =
     (case match_time U prev (c # cs) of
        Some n \<Rightarrow> Some (0, n)
      | None \<Rightarrow> map_option (\<lambda>(i, n). (Suc i, n)) (re_search U (Some c) cs))"

text \<open>\<open>re.sub(time_pattern, '', s)\<close>: every match found scanning left to right is
  deleted; the scan resumes behind each match. \<open>skip\<close> counts the characters of the
  current match still to be deleted.\<close>

fun re_sub_from :: "ucd \<Rightarrow> nat option \<Rightarrow> nat \<Rightarrow> ustr \<Rightarrow> ustr" where
  "re_sub_from U prev skip [] = []"
| "re_sub_from U prev skip (c # cs) =
     (if 0 < skip then re_sub_from U (Some c) (skip - 1) cs
      else
        (case match_time U prev (c # cs) of
           Some n \<Rightarrow> re_sub_from U (Some c) (n - 1) cs
         | None \<Rightarrow> c # re_sub_from U (Some c) 0 cs))"

definition re_sub :: "ucd \<Rightarrow> ustr \<Rightarrow> ustr" where
  "re_sub U s = re_sub_from U None 0 s"

text \<open>The validation pattern \<open>^(?:[01]?\d|2[0-3]):[0-5]\d$\<close> under \<open>re.match\<close>; \<open>$\<close>
  matches at the end of the string and before a line feed that ends it.\<close>

fun match_minutes_end :: "ucd \<Rightarrow> ustr \<Rightarrow> bool" where
  "match_minutes_end U [c1, c2, c3] = (c1 = 58 \<and> 48 \<le> c2 \<and> c2 \<le> 53 \<and> isdecimal U c3)"
| "match_minutes_end U [c1, c2, c3, c4] =
     (c1 = 58 \<and> 48 \<le> c2 \<and> c2 \<le> 53 \<and> isdecimal U c3 \<and> c4 = 10)"
| "match_minutes_end U _ = False"

fun match_strict :: "ucd \<Rightarrow> ustr \<Rightarrow> bool" where
  "match_strict U (h1 # h2 # rest) =
     (((h1 = 48 \<or> h1 = 49) \<and> isdecimal U h2 \<and> match_minutes_end U rest)
      \<or> (isdecimal U h1 \<and> match_minutes_end U (h2 # rest))
      \<or> (h1 = 50 \<and> 48 \<le> h2 \<and> h2 \<le> 51 \<and> match_minutes_end U rest))"
| "match_strict U _ = False"

text \<open>\<open>datetime.strptime(s, '%H:%M')\<close>. The library compiles the format to the pattern
  \<open>(?P<H>2[0-3]|[0-1]\d|\d):(?P<M>[0-5]\d|\d)\<close>, matches it at the start of the string,
  raises \<open>ValueError\<close> when there is no match or when the match does not reach the end of
  the string, and converts the two groups with \<open>int\<close>. \<open>strp_minutes\<close> gives the minute
  group and the number of characters consumed from the colon on; \<open>strp_match\<close> gives both
  groups and the end of the match.\<close>

fun strp_minutes :: "ucd \<Rightarrow> ustr \<Rightarrow> (ustr \<times> nat) option" where
  "strp_minutes U (c1 # c2 # c3 # rest) =
     (if c1 = 58 \<and> 48 \<le> c2 \<and> c2 \<le> 53 \<and> isdecimal U c3 then Some ([c2, c3], 3)
      else if c1 = 58 \<and> isdecimal U c2 then Some ([c2], 2)
      else None)"
| "strp_minutes U [c1, c2] = (if c1 = 58 \<and> isdecimal U c2 then Some ([c2], 2) else None)"
| "strp_minutes U _ = None"

definition strp_hour :: "ucd \<Rightarrow> ustr \<Rightarrow> ustr \<Rightarrow> (ustr \<times> ustr \<times> nat) option" where
  "strp_hour U h rest =
     (case strp_minutes U rest of
        None \<Rightarrow> None
      | Some (m, k) \<Rightarrow> Some (h, m, length h + k))"

fun strp_match :: "ucd \<Rightarrow> ustr \<Rightarrow> (ustr \<times> ustr \<times> nat) option" where
  "strp_match U (h1 # h2 # rest) =
     (if h1 = 50 \<and> 48 \<le> h2 \<and> h2 \<le> 51 \<and> strp_hour U [h1, h2] rest \<noteq> None
        then strp_hour U [h1, h2] rest
      else if (h1 = 48 \<or> h1 = 49) \<and> isdecimal U h2 \<and> strp_hour U [h1, h2] rest \<noteq> None
        then strp_hour U [h1, h2] rest
      else if isdecimal U h1 then strp_hour U [h1] (h2 # rest)
      else None)"
| "strp_match U _ = None"

definition strptime_HM :: "ucd \<Rightarrow> ustr \<Rightarrow> exn + dtime" where
  "strptime_HM U s =
     (case strp_match U s of
        None \<Rightarrow> Inl ValueError
      | Some (h, m, e) \<Rightarrow>
          if e \<noteq> length s then Inl ValueError
          else Inr \<lparr>hour = int_of_digits U h, minute = int_of_digits U m,
                    second = 0, microsecond = 0\<rparr>)"

section \<open>Task construction\<close>

text \<open>\<open>Task._parse_time\<close>.\<close>

definition parse_time :: "ucd \<Rightarrow> ustr \<Rightarrow> exn + dtime" where
  "parse_time U time_str =
     (if \<not> match_strict U time_str then Inl ValueError else strptime_HM U time_str)"

text \<open>\<open>Task.__init__\<close>.\<close>

definition make_task :: "ucd \<Rightarrow> ustr \<Rightarrow> ustr \<Rightarrow> exn + task" where
  "make_task U time_str descr =
     (case parse_time U time_str of
        Inl e \<Rightarrow> Inl e
      | Inr t \<Rightarrow> Inr \<lparr>time = t, description = strip U descr\<rparr>)"

section \<open>The line parser\<close>

datatype log_entry =
    LogEmptyDescription nat
  | LogParsed task
  | LogLineError nat exn
  | LogNoTime ustr
  | LogFileMissing
  | LogFileEmpty
  | LogLoaded nat
  | LogLoadError exn
  | LogNotified task
  | LogMonitorStart
  | LogMonitorStopped
  | LogMonitorCancelled
  | LogMonitorError exn
  | LogContextError exn

text \<open>The body of the loop of \<open>parse_tasks_from_text\<close> for one line: the tasks it appends
  (none or one) or the exception that leaves it, and the log entries it writes. Only
  \<open>ValueError\<close> is caught.\<close>

definition parse_line :: "ucd \<Rightarrow> nat \<Rightarrow> ustr \<Rightarrow> (exn + task list) \<times> log_entry list" where
  "parse_line U line_num raw =
     (let line = strip U raw in
      if line = [] \<or> startswith_hash line then (Inr [], [])
      else
        (case re_search U None line of
           None \<Rightarrow> (Inr [], [LogNoTime line])
         | Some (i, n) \<Rightarrow>
             (let time_str = take n (drop i line);
                  descr = strip_sp_hy (re_sub U line);
                  descr = strip U (sub_spaces U False descr)
              in if descr = [] then (Inr [], [LogEmptyDescription line_num])
                 else
                   (case make_task U time_str descr of
                      Inr t \<Rightarrow> (Inr [t], [LogParsed t])
                    | Inl e \<Rightarrow>
                        if e = ValueError then (Inr [], [LogLineError line_num e])
                        else (Inl e, [])))))"

fun parse_loop ::
  "ucd \<Rightarrow> nat \<Rightarrow> ustr list \<Rightarrow> task list \<Rightarrow> log_entry list \<Rightarrow> (exn + task list) \<times> log_entry list"
where
  "parse_loop U line_num [] acc lg = (Inr acc, lg)"
| "parse_loop U line_num (raw # rest) acc lg =
     (case parse_line U line_num raw of
        (Inl e, l) \<Rightarrow> (Inl e, lg @ l)
      | (Inr ts, l) \<Rightarrow> parse_loop U (Suc line_num) rest (acc @ ts) (lg @ l))"

definition parse_tasks_from_text :: "ucd \<Rightarrow> ustr \<Rightarrow> (exn + task list) \<times> log_entry list" where
  "parse_tasks_from_text U text = parse_loop U 1 (split_nl text) [] []"

text \<open>The module-level \<open>validate_task_input\<close>.\<close>

definition validate_task_input :: "ucd \<Rightarrow> ustr \<Rightarrow> exn + bool" where
  "validate_task_input U task_input =
     (case re_search U None task_input of
        None \<Rightarrow> Inr False
      | Some (i, n) \<Rightarrow>
          (let time_str = take n (drop i task_input);
               descr = strip_sp_hy (re_sub U task_input)
           in if descr = [] then Inr False
              else
                (case make_task U time_str descr of
                   Inr t \<Rightarrow> Inr True
                 | Inl e \<Rightarrow> if e = ValueError then Inr False else Inl e)))"


section \<open>The manager\<close>

text \<open>The fields of \<open>TaskManager\<close> that the operations read and write; \<open>logged\<close> is what
  has been written to the logger.\<close>

record manager =
  tasks :: "task list"
  last_modified :: real
  monitoring :: bool
  logged :: "log_entry list"

text \<open>What the file system answers during one call of \<open>load_tasks\<close>:
  \<open>tasks_file.exists()\<close>, \<open>tasks_file.stat().st_mtime\<close> and
  \<open>tasks_file.read_text(encoding='utf-8')\<close>.\<close>

record file_view =
  fexists :: bool
  fstat :: "exn + real"
  fread :: "exn + ustr"

definition add_log :: "log_entry list \<Rightarrow> manager \<Rightarrow> manager" where
  "add_log l s = s\<lparr>logged := logged s @ l\<rparr>"

text \<open>The \<open>try\<close> block of \<open>load_tasks\<close>.\<close>

definition load_try :: "ucd \<Rightarrow> file_view \<Rightarrow> manager \<Rightarrow> (exn + bool) \<times> manager" where
  "load_try U fs s =
     (if \<not> fexists fs then (Inr False, add_log [LogFileMissing] s)
      else
        (case fstat fs of
           Inl e \<Rightarrow> (Inl e, s)
         | Inr current_modified \<Rightarrow>
             if current_modified \<le> last_modified s then (Inr True, s)
             else
               (let s1 = s\<lparr>last_modified := current_modified\<rparr> in
                case fread fs of
                  Inl e \<Rightarrow> (Inl e, s1)
                | Inr content \<Rightarrow>
                    if strip U content = []
                    then (Inr True, add_log [LogFileEmpty] (s1\<lparr>tasks := []\<rparr>))
                    else
                      (case parse_tasks_from_text U content of
                         (Inl e, l) \<Rightarrow> (Inl e, add_log l s1)
                       | (Inr new_tasks, l) \<Rightarrow>
                           (Inr True,
                            add_log (l @ [LogLoaded (length new_tasks)])
                              (s1\<lparr>tasks := new_tasks\<rparr>))))))"

text \<open>\<open>load_tasks\<close>: the \<open>try\<close> block under \<open>except Exception\<close>.\<close>

definition load_tasks :: "ucd \<Rightarrow> file_view \<Rightarrow> manager \<Rightarrow> (exn + bool) \<times> manager" where
  "load_tasks U fs s =
     (case load_try U fs s of
        (Inl e, s') \<Rightarrow>
          if is_Exception e then (Inr False, add_log [LogLoadError e] s') else (Inl e, s')
      | (Inr b, s') \<Rightarrow> (Inr b, s'))"

section \<open>The dispatcher\<close>

text \<open>\<open>list.remove(x)\<close>: deletes the first element equal to \<open>x\<close>, \<open>ValueError\<close> when there
  is none.\<close>

definition list_remove :: "task \<Rightarrow> task list \<Rightarrow> exn + task list" where
  "list_remove x xs = (if x \<in> set xs then Inr (remove1 x xs) else Inl ValueError)"

text \<open>The first loop of \<open>check_and_notify\<close>. \<open>clock k\<close> is the reading \<open>datetime.now()\<close>
  gives at the \<open>k\<close>-th call of \<open>should_notify\<close> of the pass; \<open>send t\<close> is the exception
  \<open>_send_notification\<close> raises for \<open>t\<close>, if any. The accumulators are the notifications
  sent, \<open>tasks_to_remove\<close> and the log entries.\<close>

fun notify_scan ::
  "(nat \<Rightarrow> dtime) \<Rightarrow> (task \<Rightarrow> exn option) \<Rightarrow> nat \<Rightarrow> task list
    \<Rightarrow> task list \<times> task list \<times> log_entry list
    \<Rightarrow> exn option \<times> task list \<times> task list \<times> log_entry list"
where
  "notify_scan clock send k [] acc = (None, acc)"
| "notify_scan clock send k (t # ts) (sent, to_remove, lg) =
     (if should_notify (clock k) t then
        (case send t of
           Some e \<Rightarrow> (Some e, sent, to_remove, lg)
         | None \<Rightarrow>
             notify_scan clock send (Suc k) ts (sent @ [t], to_remove @ [t], lg @ [LogNotified t]))
      else notify_scan clock send (Suc k) ts (sent, to_remove, lg))"

text \<open>The second loop: \<open>self.tasks.remove(task)\<close> for each task marked.\<close>

fun remove_marked :: "task list \<Rightarrow> task list \<Rightarrow> exn option \<times> task list" where
  "remove_marked [] ts = (None, ts)"
| "remove_marked (x # xs) ts =
     (case list_remove x ts of
        Inl e \<Rightarrow> (Some e, ts)
      | Inr ts' \<Rightarrow> remove_marked xs ts')"

text \<open>\<open>check_and_notify\<close>: the exception that leaves it (if any), the notifications sent,
  and the manager afterwards.\<close>

definition check_and_notify ::
  "(nat \<Rightarrow> dtime) \<Rightarrow> (task \<Rightarrow> exn option) \<Rightarrow> manager \<Rightarrow> exn option \<times> task list \<times> manager"
where
  "check_and_notify clock send s =
     (case notify_scan clock send 0 (tasks s) ([], [], []) of
        (Some e, sent, to_remove, lg) \<Rightarrow> (Some e, sent, add_log lg s)
      | (None, sent, to_remove, lg) \<Rightarrow>
          (case remove_marked to_remove (tasks s) of
             (r, ts) \<Rightarrow> (r, sent, add_log lg (s\<lparr>tasks := ts\<rparr>))))"

section \<open>The monitor loop\<close>

text \<open>What the surroundings do during one iteration of the loop: the answers of the file
  system, the clock and the terminal, the exception raised at \<open>await asyncio.sleep(1)\<close>
  and at \<open>await asyncio.sleep(5)\<close> (a cancellation is delivered there), and whether other
  code clears \<open>_monitoring\<close> while the loop is suspended.\<close>

record tick_env =
  files :: file_view
  clock :: "nat \<Rightarrow> dtime"
  send :: "task \<Rightarrow> exn option"
  sleep1 :: "exn option"
  sleep5 :: "exn option"
  stop :: bool

definition after_sleep :: "tick_env \<Rightarrow> manager \<Rightarrow> manager" where
  "after_sleep te s = (if stop te then s\<lparr>monitoring := False\<rparr> else s)"

text \<open>The \<open>try\<close> body of one iteration.\<close>

definition tick_body :: "ucd \<Rightarrow> tick_env \<Rightarrow> manager \<Rightarrow> exn option \<times> manager" where
  "tick_body U te s =
     (case load_tasks U (files te) s of
        (Inl e, s1) \<Rightarrow> (Some e, s1)
      | (Inr loaded, s1) \<Rightarrow>
          (case check_and_notify (clock te) (send te) s1 of
             (Some e, sent, s2) \<Rightarrow> (Some e, s2)
           | (None, sent, s2) \<Rightarrow>
               (case sleep1 te of
                  Some e \<Rightarrow> (Some e, s2)
                | None \<Rightarrow> (None, after_sleep te s2))))"

text \<open>One iteration with its two handlers: the exception that leaves the iteration, if
  any.\<close>

definition tick :: "ucd \<Rightarrow> tick_env \<Rightarrow> manager \<Rightarrow> exn option \<times> manager" where
  "tick U te s =
     (case tick_body U te s of
        (None, s1) \<Rightarrow> (None, s1)
      | (Some e, s1) \<Rightarrow>
          if e = CancelledError then (Some e, add_log [LogMonitorCancelled] s1)
          else if is_Exception e then
            (case sleep5 te of
               Some e' \<Rightarrow> (Some e', add_log [LogMonitorError e] s1)
             | None \<Rightarrow> (None, after_sleep te (add_log [LogMonitorError e] s1)))
          else (Some e, s1))"

text \<open>The \<open>while self._monitoring\<close> loop over the iterations the surroundings are given
  for. \<open>Running\<close>: the loop has not ended within them.\<close>

datatype outcome = Returned | Raised exn | Running

fun monitor_loop :: "ucd \<Rightarrow> tick_env list \<Rightarrow> manager \<Rightarrow> outcome \<times> manager" where
  "monitor_loop U [] s = (if monitoring s then (Running, s) else (Returned, s))"
| "monitor_loop U (te # rest) s =
     (if \<not> monitoring s then (Returned, s)
      else
        (case tick U te s of
           (Some e, s1) \<Rightarrow> (Raised e, s1)
         | (None, s1) \<Rightarrow> monitor_loop U rest s1))"

text \<open>\<open>monitor_tasks\<close>: the loop inside \<open>monitoring_context\<close>, whose \<open>except Exception\<close>
  logs and re-raises and whose \<open>finally\<close> clears the flag.\<close>

definition monitor_tasks :: "ucd \<Rightarrow> tick_env list \<Rightarrow> manager \<Rightarrow> outcome \<times> manager" where
  "monitor_tasks U envs s =
     (case monitor_loop U envs (add_log [LogMonitorStart] (s\<lparr>monitoring := True\<rparr>)) of
        (Running, s1) \<Rightarrow> (Running, s1)
      | (Returned, s1) \<Rightarrow> (Returned, add_log [LogMonitorStopped] (s1\<lparr>monitoring := False\<rparr>))
      | (Raised e, s1) \<Rightarrow>
          (Raised e,
           add_log [LogMonitorStopped]
             ((if is_Exception e then add_log [LogContextError e] s1 else s1)
                \<lparr>monitoring := False\<rparr>)))"

section \<open>The time format in the specification's words\<close>

text \<open>Written from the specification's words, to be compared with \<open>parse_time\<close>: one or
  two digits with a value from 00 to 23, a colon, exactly two digits with a value from
  00 to 59. \<open>dig\<close> says what a digit is and \<open>val\<close> gives its value.\<close>

fun spec_time_string :: "(nat \<Rightarrow> bool) \<Rightarrow> (nat \<Rightarrow> nat) \<Rightarrow> ustr \<Rightarrow> bool" where
  "spec_time_string dig val [h, c, m1, m2] =
     (dig h \<and> val h \<le> 23 \<and> c = 58 \<and> dig m1 \<and> dig m2 \<and> 10 * val m1 + val m2 \<le> 59)"
| "spec_time_string dig val [h1, h2, c, m1, m2] =
     (dig h1 \<and> dig h2 \<and> 10 * val h1 + val h2 \<le> 23 \<and> c = 58
      \<and> dig m1 \<and> dig m2 \<and> 10 * val m1 + val m2 \<le> 59)"
| "spec_time_string dig val _ = False"

text \<open>The digits \<open>0\<close> to \<open>9\<close> and their values.\<close>

definition ascii_digit :: "nat \<Rightarrow> bool" where
  "ascii_digit c = (48 \<le> c \<and> c \<le> 57)"

definition ascii_value :: "nat \<Rightarrow> nat" where
  "ascii_value c = c - 48"

text \<open>The clock time that such a string of the digits \<open>0\<close> to \<open>9\<close> denotes.\<close>

fun spec_time_value :: "ustr \<Rightarrow> dtime" where
  "spec_time_value [h, c, m1, m2] =
     \<lparr>hour = ascii_value h, minute = 10 * ascii_value m1 + ascii_value m2,
      second = 0, microsecond = 0\<rparr>"
| "spec_time_value [h1, h2, c, m1, m2] =
     \<lparr>hour = 10 * ascii_value h1 + ascii_value h2,
      minute = 10 * ascii_value m1 + ascii_value m2, second = 0, microsecond = 0\<rparr>"
| "spec_time_value _ = \<lparr>hour = 0, minute = 0, second = 0, microsecond = 0\<rparr>"

text \<open>The strings \<open>parse_time\<close> accepts, position by position: where the patterns say
  \<open>\d\<close> any decimal digit of the database stands, elsewhere the listed ASCII digits.\<close>

fun time_shape :: "ucd \<Rightarrow> ustr \<Rightarrow> bool" where
  "time_shape U [h, c, m1, m2] =
     (isdecimal U h \<and> c = 58 \<and> 48 \<le> m1 \<and> m1 \<le> 53 \<and> isdecimal U m2)"
| "time_shape U [h1, h2, c, m1, m2] =
     ((((h1 = 48 \<or> h1 = 49) \<and> isdecimal U h2) \<or> (h1 = 50 \<and> 48 \<le> h2 \<and> h2 \<le> 51))
      \<and> c = 58 \<and> 48 \<le> m1 \<and> m1 \<le> 53 \<and> isdecimal U m2)"
| "time_shape U _ = False"

text \<open>The tasks that one line contributes to the result of \<open>parse_tasks_from_text\<close>.\<close>

definition line_tasks :: "ucd \<Rightarrow> nat \<Rightarrow> ustr \<Rightarrow> task list" where
  "line_tasks U k l = (case fst (parse_line U k l) of Inr ts \<Rightarrow> ts | Inl e \<Rightarrow> [])"

text \<open>The batch of three malformed lines: \<open>invalid time - \<close> followed by the Cyrillic
  word of the test suite, \<open>25:70 - X\<close> and \<open>- Y\<close>, each ended by a line feed.\<close>

definition malformed_batch :: ustr where
  "malformed_batch =
     [105, 110, 118, 97, 108, 105, 100, 32, 116, 105, 109, 101, 32, 45, 32,
      1047, 1072, 1076, 1072, 1095, 1072, 10,
      50, 53, 58, 55, 48, 32, 45, 32, 88, 10,
      45, 32, 89, 10]"

section \<open>Characters and matches\<close>

text \<open>Two classes of characters used in the proofs about \<open>re_search\<close> and \<open>re_sub\<close>: a
  character that no match contains and that is not a word character, and a character
  that can occur in a match.\<close>

definition inert :: "ucd \<Rightarrow> nat \<Rightarrow> bool" where
  "inert U c = (\<not> isdecimal U c \<and> c \<noteq> 58 \<and> \<not> (48 \<le> c \<and> c \<le> 57) \<and> \<not> is_word U c)"

definition pattern_char :: "ucd \<Rightarrow> nat \<Rightarrow> bool" where
  "pattern_char U c = (isdecimal U c \<or> c = 58 \<or> (48 \<le> c \<and> c \<le> 57))"

text \<open>Examples used below: a clock reading and a manager holding three tasks.\<close>

definition ten_oclock :: dtime where
  "ten_oclock = \<lparr>hour = 10, minute = 0, second = 0, microsecond = 0\<rparr>"

definition three_tasks :: manager where
  "three_tasks =
     \<lparr>tasks =
        [\<lparr>time = \<lparr>hour = 9, minute = 0, second = 0, microsecond = 0\<rparr>, description = [97]\<rparr>,
         \<lparr>time = \<lparr>hour = 12, minute = 30, second = 0, microsecond = 0\<rparr>, description = [98]\<rparr>,
         \<lparr>time = \<lparr>hour = 15, minute = 45, second = 0, microsecond = 0\<rparr>, description = [99]\<rparr>],
      last_modified = 0, monitoring = False, logged = []\<rparr>"

text \<open>Examples for the monitor loop: a new manager, and iterations in which the file is
  missing and nothing else happens, in which \<open>sleep(1)\<close> raises \<open>RuntimeError\<close>, in which
  a cancellation arrives at \<open>sleep(1)\<close>, and in which other code clears the flag.\<close>

definition new_manager :: manager where
  "new_manager = \<lparr>tasks = [], last_modified = 0, monitoring = False, logged = []\<rparr>"

definition quiet_tick :: tick_env where
  "quiet_tick =
     \<lparr>files = \<lparr>fexists = False, fstat = Inl OSError, fread = Inl OSError\<rparr>,
      clock = (\<lambda>k. ten_oclock), send = (\<lambda>t. None),
      sleep1 = None, sleep5 = None, stop = False\<rparr>"

definition error_tick :: tick_env where
  "error_tick = quiet_tick\<lparr>sleep1 := Some RuntimeError\<rparr>"

definition cancel_tick :: tick_env where
  "cancel_tick = quiet_tick\<lparr>sleep1 := Some CancelledError\<rparr>"

definition stop_tick :: tick_env where
  "stop_tick = quiet_tick\<lparr>stop := True\<rparr>"

section \<open>Due tasks\<close>

lemma time_le_micros:
  assumes "valid_time a" and "valid_time b"
  shows "time_le a b \<longleftrightarrow> micros a \<le> micros b"
proof -
  have m: "minute a < 60" "minute b < 60" and s: "second a < 60" "second b < 60"
    and u: "microsecond a < 1000000" "microsecond b < 1000000"
    using assms by (simp_all add: valid_time_def)
  show ?thesis
    unfolding time_le_def micros_def using m s u by auto
qed

text \<open>
  Claim C7. For every task and every clock reading (both valid times of day),
  \<open>should_notify\<close> holds exactly when the reading is at or after the task's time in the
  day; it holds at the boundary where the two are equal; and once it holds it keeps
  holding for every later reading of the same day.
\<close>

theorem should_notify_iff_now_ge_time:
  assumes "valid_time now" and "valid_time (time t)"
  shows "(should_notify now t \<longleftrightarrow> micros (time t) \<le> micros now)
       \<and> should_notify (time t) t
       \<and> (\<forall>later. valid_time later \<and> should_notify now t \<and> micros now \<le> micros later
            \<longrightarrow> should_notify later t)"
proof -
  have a: "should_notify now t \<longleftrightarrow> micros (time t) \<le> micros now"
    using assms by (simp add: should_notify_def time_le_micros)
  have b: "should_notify (time t) t"
    by (simp add: should_notify_def time_le_def)
  have c: "should_notify later t"
    if "valid_time later" "should_notify now t" "micros now \<le> micros later" for later
    using that assms by (simp add: should_notify_def time_le_micros)
  from a b c show ?thesis by blast
qed

theorem should_notify_iff_now_ge_time_witness:
  "valid_time \<lparr>hour = 10, minute = 0, second = 0, microsecond = 0\<rparr>
   \<and> valid_time (time \<lparr>time = \<lparr>hour = 9, minute = 30, second = 0, microsecond = 0\<rparr>,
                        description = [120]\<rparr>)
   \<and> should_notify \<lparr>hour = 10, minute = 0, second = 0, microsecond = 0\<rparr>
        \<lparr>time = \<lparr>hour = 9, minute = 30, second = 0, microsecond = 0\<rparr>, description = [120]\<rparr>
   \<and> should_notify \<lparr>hour = 9, minute = 30, second = 0, microsecond = 0\<rparr>
        \<lparr>time = \<lparr>hour = 9, minute = 30, second = 0, microsecond = 0\<rparr>, description = [120]\<rparr>"
  using should_notify_iff_now_ge_time
    [of "\<lparr>hour = 10, minute = 0, second = 0, microsecond = 0\<rparr>"
        "\<lparr>time = \<lparr>hour = 9, minute = 30, second = 0, microsecond = 0\<rparr>, description = [120]\<rparr>"]
  by (simp add: valid_time_def micros_def)

section \<open>The dispatcher removes what it notified\<close>

lemma notify_scan_const:
  "notify_scan (\<lambda>k. now) (\<lambda>t. None) k ts (sent, rm, lg) =
     (None, sent @ filter (should_notify now) ts, rm @ filter (should_notify now) ts,
      lg @ map LogNotified (filter (should_notify now) ts))"
  by (induction ts arbitrary: k sent rm lg) simp_all

lemma remove_marked_filter:
  "\<forall>y\<in>set ys. \<not> P y \<Longrightarrow>
     remove_marked (filter P xs) (ys @ xs) = (None, ys @ filter (\<lambda>t. \<not> P t) xs)"
proof (induction xs arbitrary: ys)
  case Nil
  then show ?case by simp
next
  case (Cons x xs)
  show ?case
  proof (cases "P x")
    case True
    then have "x \<notin> set ys" using Cons.prems by auto
    then have "remove1 x (ys @ x # xs) = ys @ xs"
      by (simp add: remove1_append)
    then show ?thesis
      using True Cons.IH [OF Cons.prems] by (simp add: list_remove_def)
  next
    case False
    then have "\<forall>y\<in>set (ys @ [x]). \<not> P y" using Cons.prems by simp
    from Cons.IH [OF this] False show ?thesis by simp
  qed
qed

text \<open>
  Claim C3. One pass of \<open>check_and_notify\<close> during which the clock reads \<open>now\<close> and every
  notification is delivered: the notifications sent are exactly the tasks for which
  \<open>should_notify\<close> holds, one for each and in order; no exception leaves the pass; the
  tasks left are exactly the others, in their original order. In particular, of 3 tasks
  with exactly 1 due, 2 remain and 1 notification is sent.
\<close>

theorem check_and_notify_removes_due:
  "check_and_notify (\<lambda>k. now) (\<lambda>t. None) s =
     (None, filter (should_notify now) (tasks s),
      add_log (map LogNotified (filter (should_notify now) (tasks s)))
        (s\<lparr>tasks := filter (\<lambda>t. \<not> should_notify now t) (tasks s)\<rparr>))
   \<and> (length (tasks s) = 3 \<and> length (filter (should_notify now) (tasks s)) = 1 \<longrightarrow>
        length (tasks (snd (snd (check_and_notify (\<lambda>k. now) (\<lambda>t. None) s)))) = 2
        \<and> length (fst (snd (check_and_notify (\<lambda>k. now) (\<lambda>t. None) s))) = 1)"
proof -
  let ?P = "should_notify now"
  have rm: "remove_marked (filter ?P (tasks s)) (tasks s) = (None, filter (\<lambda>t. \<not> ?P t) (tasks s))"
    using remove_marked_filter [of "[]" ?P "tasks s"] by simp
  have eq: "check_and_notify (\<lambda>k. now) (\<lambda>t. None) s =
     (None, filter ?P (tasks s),
      add_log (map LogNotified (filter ?P (tasks s)))
        (s\<lparr>tasks := filter (\<lambda>t. \<not> ?P t) (tasks s)\<rparr>))"
    by (simp add: check_and_notify_def notify_scan_const rm)
  have len: "length (filter (\<lambda>t. \<not> ?P t) (tasks s)) + length (filter ?P (tasks s)) = length (tasks s)"
    using sum_length_filter_compl [of ?P "tasks s"] by simp
  show ?thesis
    using len by (simp add: eq add_log_def)
qed

text \<open>Three tasks at 09:00, 12:30 and 15:45 (with one-letter descriptions), the clock at
  10:00: the first is notified and removed, the other two stay in order.\<close>

theorem check_and_notify_removes_due_witness:
  "length (tasks three_tasks) = 3
   \<and> length (filter (should_notify ten_oclock) (tasks three_tasks)) = 1
   \<and> fst (snd (check_and_notify (\<lambda>k. ten_oclock) (\<lambda>t. None) three_tasks))
       = [\<lparr>time = \<lparr>hour = 9, minute = 0, second = 0, microsecond = 0\<rparr>, description = [97]\<rparr>]
   \<and> tasks (snd (snd (check_and_notify (\<lambda>k. ten_oclock) (\<lambda>t. None) three_tasks)))
       = [\<lparr>time = \<lparr>hour = 12, minute = 30, second = 0, microsecond = 0\<rparr>, description = [98]\<rparr>,
          \<lparr>time = \<lparr>hour = 15, minute = 45, second = 0, microsecond = 0\<rparr>, description = [99]\<rparr>]
   \<and> length (tasks (snd (snd (check_and_notify (\<lambda>k. ten_oclock) (\<lambda>t. None) three_tasks)))) = 2
   \<and> length (fst (snd (check_and_notify (\<lambda>k. ten_oclock) (\<lambda>t. None) three_tasks))) = 1"
  using check_and_notify_removes_due [of ten_oclock three_tasks]
  by (simp add: three_tasks_def ten_oclock_def should_notify_def time_le_def add_log_def)

section \<open>The loader\<close>

lemma load_try_noop:
  "fexists fs \<Longrightarrow> fstat fs = Inr m \<Longrightarrow> m \<le> last_modified s \<Longrightarrow> load_try U fs s = (Inr True, s)"
  by (simp add: load_try_def)

lemma load_try_watermark:
  "fexists fs \<Longrightarrow> fstat fs = Inr m \<Longrightarrow> \<not> m \<le> last_modified s \<Longrightarrow>
     last_modified (snd (load_try U fs s)) = m"
  by (simp add: load_try_def add_log_def Let_def split: sum.splits prod.splits)

lemma load_tasks_watermark:
  "fexists fs \<Longrightarrow> fstat fs = Inr m \<Longrightarrow> \<not> m \<le> last_modified s \<Longrightarrow>
     last_modified (snd (load_tasks U fs s)) = m"
  using load_try_watermark [of fs m s U]
  by (cases "load_try U fs s") (auto simp: load_tasks_def add_log_def split: sum.splits)

text \<open>
  Claim C6. When the file exists and its modification time is at most the watermark,
  \<open>load_tasks\<close> returns \<open>True\<close> and leaves the manager as it was (tasks, watermark and
  log), whatever reading the file would give: the content is not read or parsed. And
  after any call of \<open>load_tasks\<close> on an existing file, a further call with the same
  modification time returns \<open>True\<close> and changes nothing.
\<close>

theorem load_tasks_unchanged_is_noop:
  assumes "fexists fs" and "fstat fs = Inr m"
  shows "(m \<le> last_modified s \<longrightarrow> load_tasks U fs s = (Inr True, s))
       \<and> (\<forall>fs'. fexists fs' \<and> fstat fs' = Inr m \<longrightarrow>
            load_tasks U fs' (snd (load_tasks U fs s)) = (Inr True, snd (load_tasks U fs s)))"
proof -
  have a: "load_tasks U f t = (Inr True, t)"
    if "fexists f" "fstat f = Inr m" "m \<le> last_modified t" for f t
    using that by (simp add: load_tasks_def load_try_noop)
  have b: "m \<le> last_modified (snd (load_tasks U fs s))"
  proof (cases "m \<le> last_modified s")
    case True
    then show ?thesis using a [OF assms] by simp
  next
    case False
    then show ?thesis using load_tasks_watermark [OF assms] by simp
  qed
  show ?thesis using a assms b by blast
qed

theorem load_tasks_unchanged_is_noop_witness:
  "fexists \<lparr>fexists = True, fstat = Inr 5, fread = Inr [49, 48, 58, 48, 48, 32, 120]\<rparr>
   \<and> fstat \<lparr>fexists = True, fstat = Inr 5, fread = Inr [49, 48, 58, 48, 48, 32, 120]\<rparr> = Inr 5
   \<and> (5::real) \<le> last_modified (three_tasks\<lparr>last_modified := 5\<rparr>)
   \<and> load_tasks ucd_sample
        \<lparr>fexists = True, fstat = Inr 5, fread = Inr [49, 48, 58, 48, 48, 32, 120]\<rparr>
        (three_tasks\<lparr>last_modified := 5\<rparr>)
      = (Inr True, three_tasks\<lparr>last_modified := 5\<rparr>)"
  using load_tasks_unchanged_is_noop
    [of "\<lparr>fexists = True, fstat = Inr 5, fread = Inr [49, 48, 58, 48, 48, 32, 120]\<rparr>" 5
        "three_tasks\<lparr>last_modified := 5\<rparr>" ucd_sample]
  by simp

text \<open>
  Claim C1, evaluated where the code departs from it. The file exists with modification
  time 5, the manager is new (no tasks, watermark 0) and reading raises
  \<open>PermissionError\<close>: \<open>load_tasks\<close> returns \<open>False\<close> and keeps the task set, but the
  watermark is 5 afterwards. When the file is readable again, unchanged, and holds the
  line \<open>10:00 x\<close>, the next call returns \<open>True\<close> without loading the task.
\<close>

theorem load_tasks_read_error_moves_watermark:
  "load_tasks ucd_sample \<lparr>fexists = True, fstat = Inr 5, fread = Inl PermissionError\<rparr>
      \<lparr>tasks = [], last_modified = 0, monitoring = False, logged = []\<rparr>
    = (Inr False,
       \<lparr>tasks = [], last_modified = 5, monitoring = False,
        logged = [LogLoadError PermissionError]\<rparr>)
   \<and> load_tasks ucd_sample
        \<lparr>fexists = True, fstat = Inr 5, fread = Inr [49, 48, 58, 48, 48, 32, 120]\<rparr>
        \<lparr>tasks = [], last_modified = 5, monitoring = False,
         logged = [LogLoadError PermissionError]\<rparr>
      = (Inr True,
         \<lparr>tasks = [], last_modified = 5, monitoring = False,
          logged = [LogLoadError PermissionError]\<rparr>)"
  by (simp add: load_tasks_def load_try_def add_log_def)

section \<open>The character database\<close>

lemma ucd_sample_ok: "ucd_ok ucd_sample"
  unfolding ucd_ok_def ucd_sample_def by auto

lemma ucd_sample_simps:
  "isdecimal ucd_sample c = ((48 \<le> c \<and> c \<le> 57) \<or> (1632 \<le> c \<and> c \<le> 1641))"
  "isalnum ucd_sample c =
     ((48 \<le> c \<and> c \<le> 57) \<or> (65 \<le> c \<and> c \<le> 90) \<or> (97 \<le> c \<and> c \<le> 122)
      \<or> (1040 \<le> c \<and> c \<le> 1103) \<or> (1632 \<le> c \<and> c \<le> 1641))"
  "isspace ucd_sample c =
     ((9 \<le> c \<and> c \<le> 13) \<or> (28 \<le> c \<and> c \<le> 32) \<or> c = 133 \<or> c = 160
      \<or> c = 5760 \<or> (8192 \<le> c \<and> c \<le> 8202) \<or> c = 8232 \<or> c = 8233
      \<or> c = 8239 \<or> c = 8287 \<or> c = 12288)"
  "decimal ucd_sample c = (if c < 1632 then c - 48 else c - 1632)"
  by (simp_all add: ucd_sample_def)

text \<open>The definitions that evaluating an example unfolds.\<close>

lemmas eval_simps = parse_tasks_from_text_def parse_line_def strip_def strip_with_def
  strip_sp_hy_def re_sub_def match_time_def boundary_def is_word_def make_task_def
  parse_time_def strptime_HM_def strp_hour_def int_of_digits_def validate_task_input_def
  Let_def ucd_sample_simps

lemma ucd_ok_decimal: "ucd_ok U \<Longrightarrow> c < 128 \<Longrightarrow> isdecimal U c = (48 \<le> c \<and> c \<le> 57)"
  by (simp add: ucd_ok_def)

lemma ucd_ok_alnum:
  "ucd_ok U \<Longrightarrow> c < 128 \<Longrightarrow>
     isalnum U c = ((48 \<le> c \<and> c \<le> 57) \<or> (65 \<le> c \<and> c \<le> 90) \<or> (97 \<le> c \<and> c \<le> 122))"
  by (simp add: ucd_ok_def)

lemma ucd_ok_space:
  "ucd_ok U \<Longrightarrow> c < 128 \<Longrightarrow> isspace U c = ((9 \<le> c \<and> c \<le> 13) \<or> (28 \<le> c \<and> c \<le> 32))"
  by (simp add: ucd_ok_def)

lemma ucd_ok_value: "ucd_ok U \<Longrightarrow> 48 \<le> c \<Longrightarrow> c \<le> 57 \<Longrightarrow> decimal U c = c - 48"
  by (simp add: ucd_ok_def)

section \<open>The time parser\<close>

lemma parse_time_shape:
  assumes "ucd_ok U"
  shows "parse_time U s =
     (if time_shape U s
      then Inr \<lparr>hour = int_of_digits U (takeWhile (\<lambda>c. c \<noteq> 58) s),
                minute = int_of_digits U (drop 1 (dropWhile (\<lambda>c. c \<noteq> 58) s)),
                second = 0, microsecond = 0\<rparr>
      else Inl ValueError)"
proof -
  have d58: "\<not> isdecimal U 58" and d10: "\<not> isdecimal U 10"
    using ucd_ok_decimal [OF assms, of 58] ucd_ok_decimal [OF assms, of 10] by simp_all
  show ?thesis
    using d58 d10
    by (cases "(U, s)" rule: time_shape.cases)
       (auto simp: parse_time_def strptime_HM_def strp_hour_def int_of_digits_def)
qed

lemma time_shape_ascii:
  assumes "ucd_ok U" and "\<forall>c\<in>set s. c < 128"
  shows "time_shape U s \<longleftrightarrow> spec_time_string ascii_digit ascii_value s"
  using assms(2)
  by (cases "(U, s)" rule: time_shape.cases)
     (auto simp: ucd_ok_decimal [OF assms(1)] ascii_digit_def ascii_value_def)

lemma spec_time_string_ascii:
  "spec_time_string ascii_digit ascii_value s \<Longrightarrow> \<forall>c\<in>set s. c < 128"
  by (cases "(ascii_digit, ascii_value, s)" rule: spec_time_string.cases)
     (auto simp: ascii_digit_def)

lemma parse_time_spec_value:
  assumes "ucd_ok U" and "spec_time_string ascii_digit ascii_value s"
  shows "parse_time U s = Inr (spec_time_value s)"
proof -
  have "time_shape U s"
    using time_shape_ascii [OF assms(1) spec_time_string_ascii [OF assms(2)]] assms(2) by simp
  then have p: "parse_time U s =
      Inr \<lparr>hour = int_of_digits U (takeWhile (\<lambda>c. c \<noteq> 58) s),
           minute = int_of_digits U (drop 1 (dropWhile (\<lambda>c. c \<noteq> 58) s)),
           second = 0, microsecond = 0\<rparr>"
    by (simp add: parse_time_shape [OF assms(1)])
  show ?thesis
    unfolding p using assms(2)
    by (cases "(ascii_digit, ascii_value, s)" rule: spec_time_string.cases)
       (auto simp: ascii_digit_def ascii_value_def int_of_digits_def ucd_ok_value [OF assms(1)])
qed

text \<open>
  Claim C5, as the code has it. \<open>parse_time\<close> succeeds exactly on the strings of the
  shape \<open>time_shape\<close> and fails with \<open>ValueError\<close> on every other string. For a string of
  ASCII characters that shape is the specification's format read with the digits \<open>0\<close> to
  \<open>9\<close>: every string from 0:00 or 00:00 to 23:59 is accepted, with the time it denotes as
  the result, and every other ASCII string is rejected.
\<close>

theorem parse_time_accepts_time_shape:
  assumes "ucd_ok U"
  shows "((\<exists>t. parse_time U s = Inr t) \<longleftrightarrow> time_shape U s)
       \<and> (\<not> time_shape U s \<longrightarrow> parse_time U s = Inl ValueError)
       \<and> ((\<forall>c\<in>set s. c < 128) \<longrightarrow>
            (time_shape U s \<longleftrightarrow> spec_time_string ascii_digit ascii_value s))
       \<and> (spec_time_string ascii_digit ascii_value s \<longrightarrow>
            parse_time U s = Inr (spec_time_value s))"
  using parse_time_shape [OF assms, of s] time_shape_ascii [OF assms, of s]
    parse_time_spec_value [OF assms, of s]
  by auto

theorem parse_time_accepts_time_shape_witness:
  "ucd_ok ucd_sample
   \<and> spec_time_string ascii_digit ascii_value [50, 51, 58, 53, 57]
   \<and> time_shape ucd_sample [50, 51, 58, 53, 57]
   \<and> parse_time ucd_sample [50, 51, 58, 53, 57]
       = Inr \<lparr>hour = 23, minute = 59, second = 0, microsecond = 0\<rparr>
   \<and> \<not> time_shape ucd_sample [50, 52, 58, 48, 48]
   \<and> parse_time ucd_sample [50, 52, 58, 48, 48] = Inl ValueError"
proof -
  have a: "\<forall>c\<in>set [50, 51, 58, 53, 57]. c < (128::nat)"
    and a': "\<forall>c\<in>set [50, 52, 58, 48, 48]. c < (128::nat)"
    by simp_all
  have b: "spec_time_string ascii_digit ascii_value [50, 51, 58, 53, 57]"
    and b': "\<not> spec_time_string ascii_digit ascii_value [50, 52, 58, 48, 48]"
    by (simp_all add: ascii_digit_def ascii_value_def)
  have v: "spec_time_value [50, 51, 58, 53, 57]
      = \<lparr>hour = 23, minute = 59, second = 0, microsecond = 0\<rparr>"
    by (simp add: ascii_value_def)
  show ?thesis
    using parse_time_accepts_time_shape [OF ucd_sample_ok, of "[50, 51, 58, 53, 57]"]
      parse_time_accepts_time_shape [OF ucd_sample_ok, of "[50, 52, 58, 48, 48]"]
      ucd_sample_ok a a' b b' v
    by metis
qed

text \<open>
  Claim C5 as stated fails on digits outside ASCII. The string of ARABIC-INDIC DIGIT ONE,
  colon, \<open>0\<close>, ARABIC-INDIC DIGIT ONE is accepted (as 01:01) although it is not made of
  the digits \<open>0\<close> to \<open>9\<close>; and if every decimal digit counts as a digit, the string
  00:00 written with ARABIC-INDIC DIGIT ZERO has the specification's format and is
  rejected.
\<close>

theorem parse_time_unicode_digits:
  "parse_time ucd_sample [1633, 58, 48, 1633]
     = Inr \<lparr>hour = 1, minute = 1, second = 0, microsecond = 0\<rparr>
   \<and> \<not> spec_time_string ascii_digit ascii_value [1633, 58, 48, 1633]
   \<and> spec_time_string (isdecimal ucd_sample) (decimal ucd_sample) [1632, 1632, 58, 1632, 1632]
   \<and> parse_time ucd_sample [1632, 1632, 58, 1632, 1632] = Inl ValueError"
  by (simp add: parse_time_def strptime_HM_def strp_hour_def int_of_digits_def
      ucd_sample_def ascii_digit_def)

section \<open>Every match of the search pattern passes validation\<close>

lemma match_minutes_cases:
  assumes "match_minutes U cs"
  obtains c2 c3 rest where "cs = 58 # c2 # c3 # rest" "48 \<le> c2" "c2 \<le> 53" "isdecimal U c3"
    "boundary U (Some c3) (headc rest)"
  using assms by (cases "(U, cs)" rule: match_minutes.cases) auto

lemma match_time_cases:
  assumes "match_time U prev cs = Some n"
  obtains
    (two) h1 h2 m1 m2 rest where "cs = h1 # h2 # 58 # m1 # m2 # rest" "n = 5"
      "((h1 = 48 \<or> h1 = 49) \<and> isdecimal U h2) \<or> (h1 = 50 \<and> 48 \<le> h2 \<and> h2 \<le> 51)"
      "48 \<le> m1" "m1 \<le> 53" "isdecimal U m2"
  | (one) h m1 m2 rest where "cs = h # 58 # m1 # m2 # rest" "n = 4"
      "isdecimal U h" "48 \<le> m1" "m1 \<le> 53" "isdecimal U m2"
proof -
  from assms consider (a) "hour_01d U cs" "n = 5" | (b) "hour_d U cs" "n = 4"
    | (c) "hour_2x U cs" "n = 5"
    by (auto simp: match_time_def split: if_splits)
  then show thesis
  proof cases
    case a
    then obtain h1 h2 r where cs: "cs = h1 # h2 # r" "h1 = 48 \<or> h1 = 49" "isdecimal U h2"
        "match_minutes U r"
      by (cases "(U, cs)" rule: hour_01d.cases) auto
    from cs(4) show thesis
      by (rule match_minutes_cases) (use cs a two in auto)
  next
    case b
    then obtain h r where cs: "cs = h # r" "isdecimal U h" "match_minutes U r"
      by (cases "(U, cs)" rule: hour_d.cases) auto
    from cs(3) show thesis
      by (rule match_minutes_cases) (use cs b one in auto)
  next
    case c
    then obtain h1 h2 r where cs: "cs = h1 # h2 # r" "h1 = 50" "48 \<le> h2" "h2 \<le> 51"
        "match_minutes U r"
      by (cases "(U, cs)" rule: hour_2x.cases) auto
    from cs(5) show thesis
      by (rule match_minutes_cases) (use cs c two in auto)
  qed
qed

lemma match_time_accepted:
  assumes "match_time U prev cs = Some n"
  shows "match_strict U (take n cs) \<and> (\<exists>t. parse_time U (take n cs) = Inr t) \<and> n \<le> length cs"
  using assms
  by (rule match_time_cases)
     (auto simp: parse_time_def strptime_HM_def strp_hour_def)

lemma re_search_match:
  "re_search U prev s = Some (i, n) \<Longrightarrow> \<exists>p. match_time U p (drop i s) = Some n"
proof (induction s arbitrary: prev i)
  case Nil
  then show ?case by simp
next
  case (Cons c cs)
  show ?case
  proof (cases "match_time U prev (c # cs)")
    case None
    with Cons.prems obtain i' where "re_search U (Some c) cs = Some (i', n)" "i = Suc i'"
      by auto
    with Cons.IH show ?thesis by auto
  next
    case (Some m)
    with Cons.prems have "i = 0" "n = m" by auto
    with Some show ?thesis by auto
  qed
qed

lemma make_task_no_error:
  assumes "re_search U prev s = Some (i, n)"
  shows "\<exists>t. make_task U (take n (drop i s)) d = Inr t"
proof -
  obtain p where "match_time U p (drop i s) = Some n"
    using re_search_match [OF assms] by blast
  then obtain t where "parse_time U (take n (drop i s)) = Inr t"
    using match_time_accepted by blast
  then show ?thesis by (simp add: make_task_def)
qed

lemma parse_line_cases:
  "\<exists>ts lg. parse_line U k raw = (Inr ts, lg) \<and> length ts \<le> 1
     \<and> (\<forall>j e. LogLineError j e \<notin> set lg)"
proof (cases "re_search U None (strip U raw)")
  case None
  then show ?thesis by (simp add: parse_line_def Let_def)
next
  case (Some a)
  obtain i n where a: "a = (i, n)" by (cases a)
  obtain t where "make_task U (take n (drop i (strip U raw)))
      (strip U (sub_spaces U False (strip_sp_hy (re_sub U (strip U raw))))) = Inr t"
    using make_task_no_error [of U None "strip U raw" i n] Some a by auto
  then show ?thesis using Some a
    by (simp add: parse_line_def Let_def)
qed

lemma parse_loop_total:
  "\<forall>j e. LogLineError j e \<notin> set lg \<Longrightarrow>
     \<exists>ts lg'. parse_loop U k ls acc lg = (Inr ts, lg') \<and> (\<forall>j e. LogLineError j e \<notin> set lg')"
proof (induction ls arbitrary: k acc lg)
  case Nil
  then show ?case by simp
next
  case (Cons l ls)
  obtain ts l' where pl: "parse_line U k l = (Inr ts, l')" "\<forall>j e. LogLineError j e \<notin> set l'"
    using parse_line_cases [of U k l] by auto
  have "\<forall>j e. LogLineError j e \<notin> set (lg @ l')" using Cons.prems pl(2) by auto
  from Cons.IH [OF this] pl(1) show ?case by simp
qed

text \<open>
  Claim C9. Whatever the search pattern matches in a line satisfies the validation
  pattern, and constructing a task from it with any description succeeds; so for every
  text the \<open>except ValueError\<close> branch of \<open>parse_tasks_from_text\<close> is never taken: its
  log entry never appears.
\<close>

theorem construction_failure_unreachable:
  "(\<forall>prev line i n. re_search U prev line = Some (i, n) \<longrightarrow>
       match_strict U (take n (drop i line))
       \<and> (\<exists>t. make_task U (take n (drop i line)) d = Inr t))
   \<and> (\<forall>k e. LogLineError k e \<notin> set (snd (parse_tasks_from_text U text)))"
proof -
  have a: "match_strict U (take n (drop i line))"
    if "re_search U prev line = Some (i, n)" for prev line i n
    using re_search_match [OF that] match_time_accepted by blast
  have b: "\<forall>k e. LogLineError k e \<notin> set (snd (parse_tasks_from_text U text))"
    using parse_loop_total [of "[]" U 1 "split_nl text" "[]"]
    by (auto simp: parse_tasks_from_text_def)
  show ?thesis using a b make_task_no_error by blast
qed

text \<open>The line \<open>ab 9:15 x\<close>: the match \<open>9:15\<close> at position 3 passes validation and the
  task is built.\<close>

theorem construction_failure_unreachable_witness:
  "re_search ucd_sample None [97, 98, 32, 57, 58, 49, 53, 32, 120] = Some (3, 4)
   \<and> match_strict ucd_sample (take 4 (drop 3 [97, 98, 32, 57, 58, 49, 53, 32, 120]))
   \<and> (\<exists>t. make_task ucd_sample (take 4 (drop 3 [97, 98, 32, 57, 58, 49, 53, 32, 120])) [120]
          = Inr t)
   \<and> snd (parse_tasks_from_text ucd_sample [97, 98, 32, 57, 58, 49, 53, 32, 120])
       = [LogParsed \<lparr>time = \<lparr>hour = 9, minute = 15, second = 0, microsecond = 0\<rparr>,
                     description = [97, 98, 32, 120]\<rparr>]"
proof -
  have s: "re_search ucd_sample None [97, 98, 32, 57, 58, 49, 53, 32, 120] = Some (3, 4)"
    by (simp add: match_time_def boundary_def is_word_def ucd_sample_def)
  have p: "snd (parse_tasks_from_text ucd_sample [97, 98, 32, 57, 58, 49, 53, 32, 120])
       = [LogParsed \<lparr>time = \<lparr>hour = 9, minute = 15, second = 0, microsecond = 0\<rparr>,
                     description = [97, 98, 32, 120]\<rparr>]"
    by (simp add: eval_simps)
  show ?thesis
    using construction_failure_unreachable
      [of ucd_sample "[120]" "[97, 98, 32, 57, 58, 49, 53, 32, 120]"] s p
    by blast
qed

section \<open>Parsing never fails\<close>

lemma strip_with_Cons_keep:
  "\<not> P c \<Longrightarrow> strip_with P (c # cs) = c # rev (dropWhile P (rev cs))"
  by (simp add: strip_with_def dropWhile_append)

lemma set_strip_with: "set (strip_with P s) \<subseteq> set s"
proof
  fix x assume "x \<in> set (strip_with P s)"
  then have "x \<in> set (dropWhile P (rev (dropWhile P s)))" by (simp add: strip_with_def)
  then have "x \<in> set (rev (dropWhile P s))" by (rule set_dropWhileD)
  then have "x \<in> set (dropWhile P s)" by simp
  then show "x \<in> set s" by (rule set_dropWhileD)
qed

lemma match_time_colon: "match_time U prev cs = Some n \<Longrightarrow> 58 \<in> set cs"
  by (erule match_time_cases) auto

lemma no_colon_no_match: "58 \<notin> set s \<Longrightarrow> re_search U prev s = None"
proof (induction s arbitrary: prev)
  case Nil
  then show ?case by simp
next
  case (Cons c cs)
  have "match_time U prev (c # cs) = None"
    using match_time_colon [of U prev "c # cs"] Cons.prems by (cases "match_time U prev (c # cs)") auto
  then show ?case using Cons by simp
qed

lemma parse_loop_concat:
  "parse_loop U k ls acc lg =
     (Inr (acc @ concat (map (\<lambda>(j, l). line_tasks U j l) (enumerate k ls))),
      lg @ concat (map (\<lambda>(j, l). snd (parse_line U j l)) (enumerate k ls)))"
proof (induction ls arbitrary: k acc lg)
  case Nil
  then show ?case by simp
next
  case (Cons l ls)
  obtain ts l' where pl: "parse_line U k l = (Inr ts, l')"
    using parse_line_cases [of U k l] by auto
  then show ?case using Cons.IH by (simp add: line_tasks_def)
qed

lemma first_line:
  assumes "ucd_ok U"
  shows "parse_line U k
      [105, 110, 118, 97, 108, 105, 100, 32, 116, 105, 109, 101, 32, 45, 32,
       1047, 1072, 1076, 1072, 1095, 1072]
    = (Inr [], [LogNoTime (strip U
      [105, 110, 118, 97, 108, 105, 100, 32, 116, 105, 109, 101, 32, 45, 32,
       1047, 1072, 1076, 1072, 1095, 1072])])"
proof -
  let ?l = "[105, 110, 118, 97, 108, 105, 100, 32, 116, 105, 109, 101, 32, 45, 32,
       1047, 1072, 1076, 1072, 1095, 1072]"
  have ns: "\<not> isspace U 105" using ucd_ok_space [OF assms, of 105] by simp
  have st: "strip U ?l = 105 # rev (dropWhile (isspace U) (rev (tl ?l)))"
    unfolding strip_def using strip_with_Cons_keep [of "isspace U" 105 "tl ?l"] ns by simp
  have "58 \<notin> set (strip U ?l)"
    using set_strip_with [of "isspace U" ?l] unfolding strip_def by auto
  then have "re_search U None (strip U ?l) = None" by (rule no_colon_no_match)
  moreover have "strip U ?l \<noteq> []" "\<not> startswith_hash (strip U ?l)"
    unfolding st by simp_all
  ultimately show ?thesis by (simp add: parse_line_def)
qed

lemma second_line:
  assumes "ucd_ok U"
  shows "parse_line U k [50, 53, 58, 55, 48, 32, 45, 32, 88]
    = (Inr [], [LogNoTime [50, 53, 58, 55, 48, 32, 45, 32, 88]])"
  by (simp add: parse_line_def strip_def strip_with_def match_time_def boundary_def is_word_def
      ucd_ok_space [OF assms] ucd_ok_decimal [OF assms] ucd_ok_alnum [OF assms])

lemma third_line:
  assumes "ucd_ok U"
  shows "parse_line U k [45, 32, 89] = (Inr [], [LogNoTime [45, 32, 89]])"
  by (simp add: parse_line_def strip_def strip_with_def match_time_def boundary_def is_word_def
      ucd_ok_space [OF assms] ucd_ok_decimal [OF assms] ucd_ok_alnum [OF assms])

lemma last_line: "parse_line U k [] = (Inr [], [])"
  by (simp add: parse_line_def strip_def strip_with_def)

lemma split_batch:
  "split_nl malformed_batch =
    [[105, 110, 118, 97, 108, 105, 100, 32, 116, 105, 109, 101, 32, 45, 32,
      1047, 1072, 1076, 1072, 1095, 1072],
     [50, 53, 58, 55, 48, 32, 45, 32, 88], [45, 32, 89], []]"
  by (simp add: malformed_batch_def)

lemma batch:
  assumes "ucd_ok U"
  shows "parse_tasks_from_text U malformed_batch =
    (Inr [], [LogNoTime (strip U
      [105, 110, 118, 97, 108, 105, 100, 32, 116, 105, 109, 101, 32, 45, 32,
       1047, 1072, 1076, 1072, 1095, 1072]), LogNoTime [50, 53, 58, 55, 48, 32, 45, 32, 88],
       LogNoTime [45, 32, 89]])"
  unfolding parse_tasks_from_text_def split_batch
  by (simp add: first_line [OF assms] second_line [OF assms] third_line [OF assms] last_line)

lemma parse_line_malformed:
  assumes "parse_line U k l = (Inr [], lg)" and "strip U l \<noteq> []" and "\<not> startswith_hash (strip U l)"
  shows "lg = [LogNoTime (strip U l)] \<or> lg = [LogEmptyDescription k]"
proof (cases "re_search U None (strip U l)")
  case None
  then show ?thesis using assms by (simp add: parse_line_def Let_def)
next
  case (Some a)
  obtain i n where a: "a = (i, n)" by (cases a)
  obtain t where "make_task U (take n (drop i (strip U l)))
      (strip U (sub_spaces U False (strip_sp_hy (re_sub U (strip U l))))) = Inr t"
    using make_task_no_error [of U None "strip U l" i n] Some a by auto
  then show ?thesis using Some a assms
    by (simp add: parse_line_def Let_def split: if_splits)
qed

text \<open>
  Claim C4. \<open>parse_tasks_from_text\<close> returns for every text, without an exception: its
  result is the concatenation of what the lines contribute one by one, and its log the
  concatenation of their log entries, so no line ends the batch. A line that is neither
  blank nor a comment and contributes no task leaves exactly one log entry: no time
  found, or empty description. The batch of the three malformed lines parses to no task,
  with three warnings.
\<close>

theorem parse_tasks_from_text_total:
  "fst (parse_tasks_from_text U text)
     = Inr (concat (map (\<lambda>(k, l). line_tasks U k l) (enumerate 1 (split_nl text))))
   \<and> snd (parse_tasks_from_text U text)
     = concat (map (\<lambda>(k, l). snd (parse_line U k l)) (enumerate 1 (split_nl text)))
   \<and> (\<forall>k l. \<exists>ts lg. parse_line U k l = (Inr ts, lg)
        \<and> (ts = [] \<and> strip U l \<noteq> [] \<and> \<not> startswith_hash (strip U l) \<longrightarrow>
             lg = [LogNoTime (strip U l)] \<or> lg = [LogEmptyDescription k]))
   \<and> (ucd_ok U \<longrightarrow>
        parse_tasks_from_text U malformed_batch =
          (Inr [],
           [LogNoTime (strip U
              [105, 110, 118, 97, 108, 105, 100, 32, 116, 105, 109, 101, 32, 45, 32,
               1047, 1072, 1076, 1072, 1095, 1072]),
            LogNoTime [50, 53, 58, 55, 48, 32, 45, 32, 88],
            LogNoTime [45, 32, 89]]))"
proof -
  have a: "parse_tasks_from_text U text =
      (Inr (concat (map (\<lambda>(k, l). line_tasks U k l) (enumerate 1 (split_nl text)))),
       concat (map (\<lambda>(k, l). snd (parse_line U k l)) (enumerate 1 (split_nl text))))"
    by (simp add: parse_tasks_from_text_def parse_loop_concat)
  have b: "\<exists>ts lg. parse_line U k l = (Inr ts, lg)
        \<and> (ts = [] \<and> strip U l \<noteq> [] \<and> \<not> startswith_hash (strip U l) \<longrightarrow>
             lg = [LogNoTime (strip U l)] \<or> lg = [LogEmptyDescription k])" for k l
    using parse_line_cases [of U k l] parse_line_malformed [of U k l] by blast
  show ?thesis
    using a b batch by simp
qed

theorem parse_tasks_from_text_total_witness:
  "ucd_ok ucd_sample
   \<and> parse_tasks_from_text ucd_sample malformed_batch =
       (Inr [],
        [LogNoTime [105, 110, 118, 97, 108, 105, 100, 32, 116, 105, 109, 101, 32, 45, 32,
                    1047, 1072, 1076, 1072, 1095, 1072],
         LogNoTime [50, 53, 58, 55, 48, 32, 45, 32, 88],
         LogNoTime [45, 32, 89]])"
proof -
  have "strip ucd_sample
      [105, 110, 118, 97, 108, 105, 100, 32, 116, 105, 109, 101, 32, 45, 32,
       1047, 1072, 1076, 1072, 1095, 1072]
    = [105, 110, 118, 97, 108, 105, 100, 32, 116, 105, 109, 101, 32, 45, 32,
       1047, 1072, 1076, 1072, 1095, 1072]"
    by (simp add: strip_def strip_with_def ucd_sample_simps)
  then show ?thesis
    using parse_tasks_from_text_total [of ucd_sample "[]"] ucd_sample_ok by simp
qed

section \<open>The monitor loop\<close>

lemma monitor_loop_append:
  "monitor_loop U (pre @ rest) s =
     (case monitor_loop U pre s of (Running, s1) \<Rightarrow> monitor_loop U rest s1 | r \<Rightarrow> r)"
proof (induction pre arbitrary: s)
  case Nil
  then show ?case by (cases rest) auto
next
  case (Cons te pre)
  then show ?case by (auto split: prod.splits option.splits)
qed

lemma monitor_loop_step:
  assumes "monitor_loop U pre s0 = (Running, s1)"
  shows "monitor_loop U (pre @ te # post) s0 =
     (case tick U te s1 of (Some e, s2) \<Rightarrow> (Raised e, s2) | (None, s2) \<Rightarrow> monitor_loop U post s2)"
proof -
  have "monitoring s1" using assms
  proof (induction pre arbitrary: s0)
    case Nil
    then show ?case by (simp split: if_splits)
  next
    case (Cons a pre)
    then show ?case by (auto split: if_splits prod.splits option.splits)
  qed
  then show ?thesis using assms by (simp add: monitor_loop_append)
qed

lemma monitor_tasks_flag:
  "monitor_tasks U envs s = (r, s') \<Longrightarrow> r \<noteq> Running \<Longrightarrow> \<not> monitoring s'"
  by (auto simp: monitor_tasks_def add_log_def split: prod.splits outcome.splits)

lemma tick_cancelled:
  "tick_body U te s1 = (Some CancelledError, s2) \<Longrightarrow>
     tick U te s1 = (Some CancelledError, add_log [LogMonitorCancelled] s2)"
  by (simp add: tick_def)

lemma tick_backoff_cancelled:
  "tick_body U te s1 = (Some e, s2) \<Longrightarrow> is_Exception e \<Longrightarrow> sleep5 te = Some CancelledError \<Longrightarrow>
     tick U te s1 = (Some CancelledError, add_log [LogMonitorError e] s2)"
  by (cases e) (simp_all add: tick_def)

lemma tick_contained:
  "tick_body U te s1 = (Some e, s2) \<Longrightarrow> is_Exception e \<Longrightarrow> sleep5 te = None \<Longrightarrow>
     tick U te s1 = (None, after_sleep te (add_log [LogMonitorError e] s2))"
  by (cases e) (simp_all add: tick_def)

text \<open>
  Claim C8. Whenever \<open>monitor_tasks\<close> ends, by the loop finding the flag cleared or by
  an exception leaving it, the flag is \<open>False\<close> afterwards. If the iterations so far
  have left the loop running and \<open>CancelledError\<close> is raised in the body of the next
  one, or at the \<open>sleep(5)\<close> of its error handler, \<open>monitor_tasks\<close> ends by raising
  \<open>CancelledError\<close>, with the flag cleared. If an exception of class \<open>Exception\<close> is
  raised in the body and the \<open>sleep(5)\<close> completes, the exception is logged and the loop
  goes on with the following iterations.
\<close>

theorem monitor_tasks_exit_paths:
  "(\<forall>envs s r s'. monitor_tasks U envs s = (r, s') \<and> r \<noteq> Running \<longrightarrow> \<not> monitoring s')
   \<and> (\<forall>pre te post s s1 s2.
        monitor_loop U pre (add_log [LogMonitorStart] (s\<lparr>monitoring := True\<rparr>)) = (Running, s1)
        \<and> tick_body U te s1 = (Some CancelledError, s2) \<longrightarrow>
          monitor_tasks U (pre @ te # post) s =
            (Raised CancelledError,
             add_log [LogMonitorStopped] ((add_log [LogMonitorCancelled] s2)\<lparr>monitoring := False\<rparr>)))
   \<and> (\<forall>pre te post s s1 s2 e.
        monitor_loop U pre (add_log [LogMonitorStart] (s\<lparr>monitoring := True\<rparr>)) = (Running, s1)
        \<and> tick_body U te s1 = (Some e, s2) \<and> is_Exception e \<and> sleep5 te = Some CancelledError \<longrightarrow>
          monitor_tasks U (pre @ te # post) s =
            (Raised CancelledError,
             add_log [LogMonitorStopped] ((add_log [LogMonitorError e] s2)\<lparr>monitoring := False\<rparr>)))
   \<and> (\<forall>pre te post s0 s1 s2 e.
        monitor_loop U pre s0 = (Running, s1)
        \<and> tick_body U te s1 = (Some e, s2) \<and> is_Exception e \<and> sleep5 te = None \<longrightarrow>
          monitor_loop U (pre @ te # post) s0 =
            monitor_loop U post (after_sleep te (add_log [LogMonitorError e] s2)))"
proof -
  have a: "\<not> monitoring s'" if "monitor_tasks U envs s = (r, s')" "r \<noteq> Running" for envs s r s'
    using that by (rule monitor_tasks_flag)
  have b: "monitor_tasks U (pre @ te # post) s =
            (Raised CancelledError,
             add_log [LogMonitorStopped] ((add_log [LogMonitorCancelled] s2)\<lparr>monitoring := False\<rparr>))"
    if "monitor_loop U pre (add_log [LogMonitorStart] (s\<lparr>monitoring := True\<rparr>)) = (Running, s1)"
       "tick_body U te s1 = (Some CancelledError, s2)" for pre te post s s1 s2
    using monitor_loop_step [OF that(1), of te post] tick_cancelled [OF that(2)]
    by (simp add: monitor_tasks_def)
  have c: "monitor_tasks U (pre @ te # post) s =
            (Raised CancelledError,
             add_log [LogMonitorStopped] ((add_log [LogMonitorError e] s2)\<lparr>monitoring := False\<rparr>))"
    if "monitor_loop U pre (add_log [LogMonitorStart] (s\<lparr>monitoring := True\<rparr>)) = (Running, s1)"
       "tick_body U te s1 = (Some e, s2)" "is_Exception e" "sleep5 te = Some CancelledError"
    for pre te post s s1 s2 e
    using monitor_loop_step [OF that(1), of te post] tick_backoff_cancelled [OF that(2,3,4)]
    by (simp add: monitor_tasks_def)
  have d: "monitor_loop U (pre @ te # post) s0 =
            monitor_loop U post (after_sleep te (add_log [LogMonitorError e] s2))"
    if "monitor_loop U pre s0 = (Running, s1)" "tick_body U te s1 = (Some e, s2)"
       "is_Exception e" "sleep5 te = None" for pre te post s0 s1 s2 e
    using monitor_loop_step [OF that(1), of te post] tick_contained [OF that(2,3,4)]
    by simp
  show ?thesis
  proof (intro conjI allI impI)
    fix envs s r s'
    assume "monitor_tasks U envs s = (r, s') \<and> r \<noteq> Running"
    then show "\<not> monitoring s'" using a by blast
  next
    fix pre te post s s1 s2
    assume "monitor_loop U pre (add_log [LogMonitorStart] (s\<lparr>monitoring := True\<rparr>)) = (Running, s1)
        \<and> tick_body U te s1 = (Some CancelledError, s2)"
    then show "monitor_tasks U (pre @ te # post) s =
            (Raised CancelledError,
             add_log [LogMonitorStopped] ((add_log [LogMonitorCancelled] s2)\<lparr>monitoring := False\<rparr>))"
      using b by blast
  next
    fix pre te post s s1 s2 e
    assume "monitor_loop U pre (add_log [LogMonitorStart] (s\<lparr>monitoring := True\<rparr>)) = (Running, s1)
        \<and> tick_body U te s1 = (Some e, s2) \<and> is_Exception e \<and> sleep5 te = Some CancelledError"
    then show "monitor_tasks U (pre @ te # post) s =
            (Raised CancelledError,
             add_log [LogMonitorStopped] ((add_log [LogMonitorError e] s2)\<lparr>monitoring := False\<rparr>))"
      using c by blast
  next
    fix pre te post s0 s1 s2 e
    assume "monitor_loop U pre s0 = (Running, s1)
        \<and> tick_body U te s1 = (Some e, s2) \<and> is_Exception e \<and> sleep5 te = None"
    then show "monitor_loop U (pre @ te # post) s0 =
            monitor_loop U post (after_sleep te (add_log [LogMonitorError e] s2))"
      using d by blast
  qed
qed

text \<open>Two quiet iterations, the second with a \<open>RuntimeError\<close> that is contained, then a
  cancellation: \<open>CancelledError\<close> leaves \<open>monitor_tasks\<close> and the flag is cleared. And a
  run in which the flag is cleared from outside: the loop returns, flag cleared.\<close>

lemmas tick_simps = tick_def tick_body_def load_tasks_def load_try_def add_log_def
  check_and_notify_def after_sleep_def quiet_tick_def error_tick_def cancel_tick_def
  stop_tick_def new_manager_def

theorem monitor_tasks_exit_paths_witness:
  "monitor_loop ucd_sample [quiet_tick, error_tick]
      (add_log [LogMonitorStart] (new_manager\<lparr>monitoring := True\<rparr>))
     = (Running,
        \<lparr>tasks = [], last_modified = 0, monitoring = True,
         logged = [LogMonitorStart, LogFileMissing, LogFileMissing, LogMonitorError RuntimeError]\<rparr>)
   \<and> tick_body ucd_sample cancel_tick
        \<lparr>tasks = [], last_modified = 0, monitoring = True,
         logged = [LogMonitorStart, LogFileMissing, LogFileMissing, LogMonitorError RuntimeError]\<rparr>
     = (Some CancelledError,
        \<lparr>tasks = [], last_modified = 0, monitoring = True,
         logged = [LogMonitorStart, LogFileMissing, LogFileMissing, LogMonitorError RuntimeError,
                   LogFileMissing]\<rparr>)
   \<and> monitor_tasks ucd_sample ([quiet_tick, error_tick] @ cancel_tick # [quiet_tick]) new_manager
     = (Raised CancelledError,
        \<lparr>tasks = [], last_modified = 0, monitoring = False,
         logged = [LogMonitorStart, LogFileMissing, LogFileMissing, LogMonitorError RuntimeError,
                   LogFileMissing, LogMonitorCancelled, LogMonitorStopped]\<rparr>)
   \<and> monitor_tasks ucd_sample [stop_tick, quiet_tick] new_manager
     = (Returned,
        \<lparr>tasks = [], last_modified = 0, monitoring = False,
         logged = [LogMonitorStart, LogFileMissing, LogMonitorStopped]\<rparr>)"
proof -
  have l: "monitor_loop ucd_sample [quiet_tick, error_tick]
      (add_log [LogMonitorStart] (new_manager\<lparr>monitoring := True\<rparr>))
     = (Running,
        \<lparr>tasks = [], last_modified = 0, monitoring = True,
         logged = [LogMonitorStart, LogFileMissing, LogFileMissing, LogMonitorError RuntimeError]\<rparr>)"
    by (simp add: tick_simps)
  have t: "tick_body ucd_sample cancel_tick
        \<lparr>tasks = [], last_modified = 0, monitoring = True,
         logged = [LogMonitorStart, LogFileMissing, LogFileMissing, LogMonitorError RuntimeError]\<rparr>
     = (Some CancelledError,
        \<lparr>tasks = [], last_modified = 0, monitoring = True,
         logged = [LogMonitorStart, LogFileMissing, LogFileMissing, LogMonitorError RuntimeError,
                   LogFileMissing]\<rparr>)"
    by (simp add: tick_simps)
  have r: "monitor_tasks ucd_sample [stop_tick, quiet_tick] new_manager
     = (Returned,
        \<lparr>tasks = [], last_modified = 0, monitoring = False,
         logged = [LogMonitorStart, LogFileMissing, LogMonitorStopped]\<rparr>)"
    by (simp add: monitor_tasks_def tick_simps)
  have c: "monitor_tasks ucd_sample ([quiet_tick, error_tick] @ cancel_tick # [quiet_tick]) new_manager
     = (Raised CancelledError,
        add_log [LogMonitorStopped]
          ((add_log [LogMonitorCancelled]
            \<lparr>tasks = [], last_modified = 0, monitoring = True,
             logged = [LogMonitorStart, LogFileMissing, LogFileMissing,
                       LogMonitorError RuntimeError, LogFileMissing]\<rparr>)\<lparr>monitoring := False\<rparr>))"
    using monitor_tasks_exit_paths [of ucd_sample] l t by blast
  show ?thesis
    using l t r c by (simp add: add_log_def)
qed

section \<open>Removing the matches from a line\<close>

lemma match_time_length:
  "match_time U p cs = Some n \<Longrightarrow> 4 \<le> n \<and> n \<le> length cs"
  by (erule match_time_cases) auto

lemma re_sub_from_skip:
  "k \<le> length cs \<Longrightarrow>
     re_sub_from U p k cs = re_sub_from U (if k = 0 then p else Some (cs ! (k - 1))) 0 (drop k cs)"
proof (induction cs arbitrary: k p)
  case Nil
  then show ?case by simp
next
  case (Cons c cs)
  show ?case
  proof (cases k)
    case 0
    then show ?thesis by simp
  next
    case (Suc k')
    then have "k' \<le> length cs" using Cons.prems by simp
    from Cons.IH [OF this, of "Some c"] Suc show ?thesis
      by (cases k') simp_all
  qed
qed

lemma re_sub_from_search:
  "re_search U prev s = Some (i, n) \<Longrightarrow>
     re_sub_from U prev 0 s
       = take i s @ re_sub_from U (Some (s ! (i + n - 1))) 0 (drop (i + n) s)"
proof (induction s arbitrary: prev i)
  case Nil
  then show ?case by simp
next
  case (Cons c cs)
  show ?case
  proof (cases "match_time U prev (c # cs)")
    case None
    with Cons.prems obtain i' where i': "re_search U (Some c) cs = Some (i', n)" "i = Suc i'"
      by auto
    obtain p where "match_time U p (drop i' cs) = Some n"
      using re_search_match [OF i'(1)] by blast
    then have "4 \<le> n" using match_time_length by blast
    then show ?thesis using Cons.IH [OF i'(1)] None i'(2) by simp
  next
    case (Some m)
    with Cons.prems have im: "i = 0" "n = m" by auto
    have len: "4 \<le> n" "n \<le> length (c # cs)" using match_time_length [OF Some] im by auto
    then have "n - 1 \<le> length cs" by simp
    from re_sub_from_skip [OF this, of U "Some c"] len Some im show ?thesis
      by (cases n) auto
  qed
qed

lemma re_search_bounds:
  "re_search U prev s = Some (i, n) \<Longrightarrow> 4 \<le> n \<and> i + n \<le> length s"
proof (induction s arbitrary: prev i)
  case Nil
  then show ?case by simp
next
  case (Cons c cs)
  show ?case
  proof (cases "match_time U prev (c # cs)")
    case None
    with Cons.prems obtain i' where i': "re_search U (Some c) cs = Some (i', n)" "i = Suc i'"
      by auto
    with Cons.IH show ?thesis by auto
  next
    case (Some m)
    with Cons.prems have im: "i = 0" "n = m" by auto
    then show ?thesis using match_time_length [OF Some] by simp
  qed
qed

text \<open>
  Claim C2, as the code has it. When a line holds a first match of the time pattern and,
  behind it, a second one, the first match is the task's time, and the text the
  description is made from is the line with both matches deleted: what stands before
  the first match, what stands between the two, and what \<open>re_sub\<close> leaves of the rest.
  The second time does not stay in the description.
\<close>

theorem two_times_both_removed:
  assumes s1: "re_search U None (strip U raw) = Some (i, n)"
      and s2: "re_search U (Some (strip U raw ! (i + n - 1))) (drop (i + n) (strip U raw)) = Some (j, m)"
      and nc: "\<not> startswith_hash (strip U raw)"
  shows "re_sub U (strip U raw)
           = take i (strip U raw) @ take j (drop (i + n) (strip U raw))
             @ re_sub_from U (Some (strip U raw ! (i + n + j + m - 1))) 0
                 (drop (i + n + j + m) (strip U raw))
       \<and> (\<exists>tm. parse_time U (take n (drop i (strip U raw))) = Inr tm
            \<and> fst (parse_line U k raw)
               = Inr (if strip U (sub_spaces U False (strip_sp_hy (re_sub U (strip U raw)))) = [] then []
                  else [\<lparr>time = tm,
                         description = strip U (strip U (sub_spaces U False
                           (strip_sp_hy (re_sub U (strip U raw)))))\<rparr>]))"
proof -
  let ?l = "strip U raw"
  have b1: "4 \<le> n" "i + n \<le> length ?l" using re_search_bounds [OF s1] by auto
  have b2: "4 \<le> m" "j + m \<le> length (drop (i + n) ?l)" using re_search_bounds [OF s2] by auto
  have idx: "drop (i + n) ?l ! (j + m - 1) = ?l ! (i + n + j + m - 1)"
    using b1 b2 by (simp add: add.assoc)
  have "re_sub U ?l = take i ?l @ re_sub_from U (Some (?l ! (i + n - 1))) 0 (drop (i + n) ?l)"
    unfolding re_sub_def by (rule re_sub_from_search [OF s1])
  also have "re_sub_from U (Some (?l ! (i + n - 1))) 0 (drop (i + n) ?l)
      = take j (drop (i + n) ?l)
        @ re_sub_from U (Some (?l ! (i + n + j + m - 1))) 0 (drop (i + n + j + m) ?l)"
    using re_sub_from_search [OF s2] idx by (simp add: add.commute add.left_commute)
  finally have a: "re_sub U ?l
           = take i ?l @ take j (drop (i + n) ?l)
             @ re_sub_from U (Some (?l ! (i + n + j + m - 1))) 0 (drop (i + n + j + m) ?l)" .
  obtain p where "match_time U p (drop i ?l) = Some n"
    using re_search_match [OF s1] by blast
  then obtain tm where tm: "parse_time U (take n (drop i ?l)) = Inr tm"
    using match_time_accepted by blast
  have ne: "?l \<noteq> []" using s1 by auto
  have "fst (parse_line U k raw)
               = Inr (if strip U (sub_spaces U False (strip_sp_hy (re_sub U ?l))) = [] then []
                  else [\<lparr>time = tm,
                         description = strip U (strip U (sub_spaces U False
                           (strip_sp_hy (re_sub U ?l))))\<rparr>])"
    using s1 nc ne tm by (simp add: parse_line_def make_task_def Let_def)
  with a tm show ?thesis by blast
qed

text \<open>The line \<open>10:00 a 11:00\<close>: matches at 0 and, in what follows the first, at 3; what
  is left of the line is \<open> a \<close> and the task is 10:00 with the description \<open>a\<close>.\<close>

theorem two_times_both_removed_witness:
  "re_search ucd_sample None
       (strip ucd_sample [49, 48, 58, 48, 48, 32, 97, 32, 49, 49, 58, 48, 48]) = Some (0, 5)
   \<and> re_search ucd_sample
       (Some (strip ucd_sample [49, 48, 58, 48, 48, 32, 97, 32, 49, 49, 58, 48, 48] ! (0 + 5 - 1)))
       (drop (0 + 5) (strip ucd_sample [49, 48, 58, 48, 48, 32, 97, 32, 49, 49, 58, 48, 48]))
      = Some (3, 5)
   \<and> \<not> startswith_hash (strip ucd_sample [49, 48, 58, 48, 48, 32, 97, 32, 49, 49, 58, 48, 48])
   \<and> re_sub ucd_sample (strip ucd_sample [49, 48, 58, 48, 48, 32, 97, 32, 49, 49, 58, 48, 48])
      = [32, 97, 32]
   \<and> fst (parse_line ucd_sample 1 [49, 48, 58, 48, 48, 32, 97, 32, 49, 49, 58, 48, 48])
      = Inr [\<lparr>time = ten_oclock, description = [97]\<rparr>]"
proof -
  let ?raw = "[49, 48, 58, 48, 48, 32, 97, 32, 49, 49, 58, 48, 48] :: ustr"
  have st: "strip ucd_sample ?raw = ?raw"
    by (simp add: strip_def strip_with_def ucd_sample_simps)
  have s1: "re_search ucd_sample None (strip ucd_sample ?raw) = Some (0, 5)"
    unfolding st by (simp add: match_time_def boundary_def is_word_def ucd_sample_simps)
  have s2: "re_search ucd_sample (Some (strip ucd_sample ?raw ! (0 + 5 - 1)))
      (drop (0 + 5) (strip ucd_sample ?raw)) = Some (3, 5)"
    unfolding st by (simp add: match_time_def boundary_def is_word_def ucd_sample_simps)
  have nc: "\<not> startswith_hash (strip ucd_sample ?raw)"
    unfolding st by simp
  have r: "re_sub_from ucd_sample (Some (strip ucd_sample ?raw ! (0 + 5 + 3 + 5 - 1))) 0
      (drop (0 + 5 + 3 + 5) (strip ucd_sample ?raw)) = []"
    unfolding st by simp
  have tm: "parse_time ucd_sample (take 5 (drop 0 (strip ucd_sample ?raw))) = Inr ten_oclock"
    unfolding st by (simp add: eval_simps ten_oclock_def)
  have a: "re_sub ucd_sample (strip ucd_sample ?raw) = [32, 97, 32]"
    using two_times_both_removed [OF s1 s2 nc, of 1] unfolding r by (simp add: st)
  have d: "strip ucd_sample (sub_spaces ucd_sample False (strip_sp_hy [32, 97, 32])) = [97]"
    by (simp add: strip_def strip_with_def strip_sp_hy_def ucd_sample_simps)
  have b: "fst (parse_line ucd_sample 1 ?raw) = Inr [\<lparr>time = ten_oclock, description = [97]\<rparr>]"
    using two_times_both_removed [OF s1 s2 nc, of 1] tm unfolding a d
    by (simp add: strip_def strip_with_def ucd_sample_simps)
  show ?thesis using s1 s2 nc a b by blast
qed

text \<open>
  Claim C2 as stated fails on the line \<open>10:00 a 11:00\<close>: the pattern matches at 0 and, in
  what follows that match, at 3; the task parsed is 10:00 with the description \<open>a\<close>,
  in which the second time does not occur.
\<close>

theorem second_time_not_in_description:
  "re_search ucd_sample None [49, 48, 58, 48, 48, 32, 97, 32, 49, 49, 58, 48, 48] = Some (0, 5)
   \<and> re_search ucd_sample (Some 48) [32, 97, 32, 49, 49, 58, 48, 48] = Some (3, 5)
   \<and> parse_tasks_from_text ucd_sample [49, 48, 58, 48, 48, 32, 97, 32, 49, 49, 58, 48, 48]
      = (Inr [\<lparr>time = ten_oclock, description = [97]\<rparr>],
         [LogParsed \<lparr>time = ten_oclock, description = [97]\<rparr>])"
  by (simp add: eval_simps ten_oclock_def)

section \<open>Validation and parsing of one line\<close>

lemma ucd_ok_space_alnum: "ucd_ok U \<Longrightarrow> isspace U c \<Longrightarrow> \<not> isalnum U c \<and> c \<noteq> 95"
  by (simp add: ucd_ok_def)

lemma ucd_ok_decimal_alnum: "ucd_ok U \<Longrightarrow> isdecimal U c \<Longrightarrow> isalnum U c"
  by (simp add: ucd_ok_def)

lemma space_inert:
  assumes "ucd_ok U" and "isspace U c"
  shows "inert U c"
proof -
  have w: "\<not> isalnum U c" "c \<noteq> 95" using ucd_ok_space_alnum [OF assms] by auto
  have d: "\<not> isdecimal U c" using ucd_ok_decimal_alnum [OF assms(1)] w by blast
  have r: "\<not> (48 \<le> c \<and> c \<le> 58)"
  proof
    assume h: "48 \<le> c \<and> c \<le> 58"
    then have "c < 128" by simp
    from ucd_ok_space [OF assms(1) this] assms(2) h show False by simp
  qed
  show ?thesis using w d r by (auto simp: inert_def is_word_def)
qed

lemma headc_inert:
  "\<forall>c\<in>set b. inert U c \<Longrightarrow> word_at U (headc (cs @ b)) = word_at U (headc cs)"
  by (cases cs; cases b) (auto simp: inert_def)

lemma match_minutes_suffix:
  assumes "\<forall>c\<in>set b. inert U c"
  shows "match_minutes U (cs @ b) = match_minutes U cs"
proof -
  have bh: "b = [] \<or> (\<exists>x r. b = x # r \<and> inert U x)" using assms by (cases b) auto
  have w: "word_at U (headc (r @ b)) = word_at U (headc r)" for r
    using headc_inert [OF assms] .
  consider "cs = []" | c1 where "cs = [c1]" | c1 c2 where "cs = [c1, c2]"
    | c1 c2 c3 r where "cs = c1 # c2 # c3 # r"
    by (metis list.exhaust)
  then show ?thesis
  proof cases
    case 1
    then show ?thesis using bh
      by (cases "(U, b)" rule: match_minutes.cases) (auto simp: inert_def)
  next
    case 2
    then show ?thesis using bh
      by (cases "(U, c1 # b)" rule: match_minutes.cases) (auto simp: inert_def)
  next
    case 3
    then show ?thesis using bh
      by (cases "(U, c1 # c2 # b)" rule: match_minutes.cases) (auto simp: inert_def)
  next
    case 4
    then show ?thesis using w by (simp add: boundary_def)
  qed
qed

lemma hour_01d_suffix:
  assumes "\<forall>c\<in>set b. inert U c"
  shows "hour_01d U (cs @ b) = hour_01d U cs"
proof -
  have bh: "b = [] \<or> (\<exists>x r. b = x # r \<and> inert U x)" using assms by (cases b) auto
  consider "cs = []" | h1 where "cs = [h1]" | h1 h2 r where "cs = h1 # h2 # r"
    by (metis list.exhaust)
  then show ?thesis
  proof cases
    case 1
    then show ?thesis using bh
      by (cases "(U, b)" rule: hour_01d.cases) (auto simp: inert_def)
  next
    case 2
    then show ?thesis using bh
      by (cases "(U, h1 # b)" rule: hour_01d.cases) (auto simp: inert_def)
  next
    case 3
    then show ?thesis using match_minutes_suffix [OF assms] by simp
  qed
qed

lemma hour_d_suffix:
  assumes "\<forall>c\<in>set b. inert U c"
  shows "hour_d U (cs @ b) = hour_d U cs"
proof (cases cs)
  case Nil
  then show ?thesis using assms by (cases b) (auto simp: inert_def)
next
  case (Cons h r)
  then show ?thesis using match_minutes_suffix [OF assms] by simp
qed

lemma hour_2x_suffix:
  assumes "\<forall>c\<in>set b. inert U c"
  shows "hour_2x U (cs @ b) = hour_2x U cs"
proof -
  have bh: "b = [] \<or> (\<exists>x r. b = x # r \<and> inert U x)" using assms by (cases b) auto
  consider "cs = []" | h1 where "cs = [h1]" | h1 h2 r where "cs = h1 # h2 # r"
    by (metis list.exhaust)
  then show ?thesis
  proof cases
    case 1
    then show ?thesis using bh
      by (cases "(U, b)" rule: hour_2x.cases) (auto simp: inert_def)
  next
    case 2
    then show ?thesis using bh
      by (cases "(U, h1 # b)" rule: hour_2x.cases) (auto simp: inert_def)
  next
    case 3
    then show ?thesis using match_minutes_suffix [OF assms] by simp
  qed
qed

lemma match_time_suffix:
  assumes "\<forall>c\<in>set b. inert U c"
  shows "match_time U p (cs @ b) = match_time U p cs"
proof (cases cs)
  case Nil
  have "\<not> hour_01d U b" "\<not> hour_d U b" "\<not> hour_2x U b"
    using hour_01d_suffix [OF assms, of "[]"] hour_d_suffix [OF assms, of "[]"]
      hour_2x_suffix [OF assms, of "[]"] by simp_all
  then show ?thesis using Nil by (simp add: match_time_def)
next
  case (Cons c r)
  then show ?thesis
    using hour_01d_suffix [OF assms, of cs] hour_d_suffix [OF assms, of cs]
      hour_2x_suffix [OF assms, of cs]
    by (simp add: match_time_def)
qed

lemma match_time_inert_head: "inert U c \<Longrightarrow> match_time U p (c # cs) = None"
proof (cases "match_time U p (c # cs)")
  case None
  then show ?thesis by simp
next
  case (Some n)
  assume "inert U c"
  with Some show ?thesis
    by (elim match_time_cases) (auto simp: inert_def)
qed

lemma match_time_prev:
  "word_at U p = word_at U p' \<Longrightarrow> match_time U p cs = match_time U p' cs"
  by (simp add: match_time_def boundary_def)

lemma re_search_prev:
  "word_at U p = word_at U p' \<Longrightarrow> re_search U p s = re_search U p' s"
  by (cases s) (simp_all add: match_time_prev [of U p p'])

lemma re_sub_from_prev:
  "word_at U p = word_at U p' \<Longrightarrow> re_sub_from U p k s = re_sub_from U p' k s"
  by (cases s) (simp_all add: match_time_prev [of U p p'])

lemma re_search_inert: "\<forall>c\<in>set b. inert U c \<Longrightarrow> re_search U p b = None"
  by (induction b arbitrary: p) (simp_all add: match_time_inert_head)

lemma re_sub_from_inert: "\<forall>c\<in>set b. inert U c \<Longrightarrow> re_sub_from U p 0 b = b"
  by (induction b arbitrary: p) (simp_all add: match_time_inert_head)

lemma re_search_suffix:
  assumes "\<forall>c\<in>set b. inert U c"
  shows "re_search U p (s @ b) = re_search U p s"
proof (induction s arbitrary: p)
  case Nil
  then show ?case using re_search_inert [OF assms] by simp
next
  case (Cons c s)
  have "match_time U p (c # s @ b) = match_time U p (c # s)"
    using match_time_suffix [OF assms, of p "c # s"] by simp
  then show ?case using Cons.IH by (simp split: option.split)
qed

lemma re_search_prefix:
  assumes "\<forall>c\<in>set a. inert U c"
  shows "re_search U None (a @ s) = map_option (\<lambda>(i, n). (length a + i, n)) (re_search U None s)"
  using assms
proof (induction a arbitrary: s rule: rev_induct)
  case Nil
  show ?case by (simp add: option.map_ident case_prod_unfold)
next
  case (snoc x a)
  have x: "inert U x" and a: "\<forall>c\<in>set a. inert U c" using snoc.prems by auto
  have w: "word_at U (Some x) = word_at U None" using x by (simp add: inert_def)
  have "re_search U None (x # s) = map_option (\<lambda>(i, n). (Suc i, n)) (re_search U None s)"
    using match_time_inert_head [OF x] re_search_prev [OF w] by simp
  then show ?case using snoc.IH [OF a, of "x # s"]
    by (simp add: option.map_comp comp_def case_prod_unfold)
qed

lemma re_sub_from_suffix:
  assumes "\<forall>c\<in>set b. inert U c"
  shows "k \<le> length s \<Longrightarrow> re_sub_from U p k (s @ b) = re_sub_from U p k s @ b"
proof (induction s arbitrary: p k)
  case Nil
  then show ?case using re_sub_from_inert [OF assms] by simp
next
  case (Cons c s)
  show ?case
  proof (cases "0 < k")
    case True
    then have "k - 1 \<le> length s" using Cons.prems by simp
    from Cons.IH [OF this] True show ?thesis by simp
  next
    case False
    have m: "match_time U p (c # s @ b) = match_time U p (c # s)"
      using match_time_suffix [OF assms, of p "c # s"] by simp
    show ?thesis
    proof (cases "match_time U p (c # s)")
      case None
      then show ?thesis using False m Cons.IH [of 0] by simp
    next
      case (Some n)
      have "n - 1 \<le> length s" using match_time_length [OF Some] by auto
      from Cons.IH [OF this] Some False m show ?thesis by simp
    qed
  qed
qed

lemma re_sub_from_prefix:
  assumes "\<forall>c\<in>set a. inert U c"
  shows "re_sub_from U None 0 (a @ s) = a @ re_sub_from U None 0 s"
  using assms
proof (induction a arbitrary: s rule: rev_induct)
  case Nil
  show ?case by simp
next
  case (snoc x a)
  have x: "inert U x" and a: "\<forall>c\<in>set a. inert U c" using snoc.prems by auto
  have w: "word_at U (Some x) = word_at U None" using x by (simp add: inert_def)
  have "re_sub_from U None 0 (x # s) = x # re_sub_from U None 0 s"
    using match_time_inert_head [OF x] re_sub_from_prev [OF w] by simp
  then show ?case using snoc.IH [OF a, of "x # s"] by simp
qed

lemma strip_with_decomp:
  obtains a b where "s = a @ strip_with P s @ b" "\<forall>c\<in>set a. P c" "\<forall>c\<in>set b. P c"
proof
  let ?d = "dropWhile P s"
  have "rev ?d = takeWhile P (rev ?d) @ dropWhile P (rev ?d)" by simp
  then have "rev (rev ?d) = rev (takeWhile P (rev ?d) @ dropWhile P (rev ?d))" by simp
  then have d: "?d = rev (dropWhile P (rev ?d)) @ rev (takeWhile P (rev ?d))"
    by (simp only: rev_rev_ident rev_append)
  have "s = takeWhile P s @ ?d" by simp
  with d show "s = takeWhile P s @ strip_with P s @ rev (takeWhile P (rev ?d))"
    by (simp add: strip_with_def)
  show "\<forall>c\<in>set (takeWhile P s). P c" using set_takeWhileD by fastforce
  show "\<forall>c\<in>set (rev (takeWhile P (rev ?d))). P c" using set_takeWhileD by fastforce
qed

lemma strip_with_nonempty: "strip_with P s \<noteq> [] \<longleftrightarrow> (\<exists>c\<in>set s. \<not> P c)"
proof -
  have "(\<forall>x\<in>set (dropWhile P s). P x) \<longleftrightarrow> (\<forall>x\<in>set s. P x)"
  proof
    assume h: "\<forall>x\<in>set (dropWhile P s). P x"
    have "dropWhile P s = []"
    proof (rule ccontr)
      assume ne: "dropWhile P s \<noteq> []"
      then have "\<not> P (hd (dropWhile P s))" by (rule hd_dropWhile)
      moreover have "hd (dropWhile P s) \<in> set (dropWhile P s)" using ne by simp
      ultimately show False using h by blast
    qed
    then show "\<forall>x\<in>set s. P x" by (simp add: dropWhile_eq_Nil_conv)
  next
    assume "\<forall>x\<in>set s. P x"
    then show "\<forall>x\<in>set (dropWhile P s). P x" using set_dropWhileD by fastforce
  qed
  then show ?thesis by (simp add: strip_with_def dropWhile_eq_Nil_conv)
qed

lemma split_nl_single: "10 \<notin> set s \<Longrightarrow> split_nl s = [s]"
  by (induction s) auto

lemma match_time_chars:
  "match_time U p cs = Some n \<Longrightarrow> \<forall>x\<in>set (take n cs). pattern_char U x"
  by (erule match_time_cases) (auto simp: pattern_char_def)

lemma re_sub_from_keeps:
  "\<forall>x\<in>set (take k s). pattern_char U x \<Longrightarrow> c \<in> set s \<Longrightarrow> \<not> pattern_char U c \<Longrightarrow>
     c \<in> set (re_sub_from U p k s)"
proof (induction s arbitrary: p k)
  case Nil
  then show ?case by simp
next
  case (Cons x s)
  show ?case
  proof (cases "0 < k")
    case True
    then obtain k' where k: "k = Suc k'" by (cases k) auto
    then have "pattern_char U x" "\<forall>y\<in>set (take k' s). pattern_char U y"
      using Cons.prems(1) by auto
    then have "c \<in> set (re_sub_from U (Some x) k' s)"
      using Cons.IH [of k' "Some x"] Cons.prems(2,3) by auto
    then show ?thesis using k by simp
  next
    case False
    show ?thesis
    proof (cases "match_time U p (x # s)")
      case None
      have "c = x \<or> c \<in> set (re_sub_from U (Some x) 0 s)"
        using Cons.IH [of 0 "Some x"] Cons.prems(2,3) by auto
      then show ?thesis using None False by auto
    next
      case (Some n)
      have n: "4 \<le> n" using match_time_length [OF Some] by simp
      then obtain n' where n': "n = Suc n'" by (cases n) auto
      have "\<forall>y\<in>set (take n (x # s)). pattern_char U y" using match_time_chars [OF Some] .
      then have "pattern_char U x" "\<forall>y\<in>set (take n' s). pattern_char U y"
        using n' by auto
      then have "c \<in> set (re_sub_from U (Some x) n' s)"
        using Cons.IH [of n' "Some x"] Cons.prems(2,3) by auto
      then show ?thesis using Some False n' by simp
    qed
  qed
qed

lemma parse_single_line:
  "10 \<notin> set s \<Longrightarrow> parse_tasks_from_text U s = parse_line U 1 s"
proof -
  assume "10 \<notin> set s"
  then have sp: "split_nl s = [s]" by (rule split_nl_single)
  obtain ts lg where "parse_line U 1 s = (Inr ts, lg)"
    using parse_line_cases [of U 1 s] by blast
  then show ?thesis by (simp add: parse_tasks_from_text_def sp)
qed

lemma validate_of_parse:
  assumes ok: "ucd_ok U" and pl: "parse_line U k s = (Inr [t], lg)"
  shows "validate_task_input U s = Inr True"
proof -
  let ?l = "strip U s"
  obtain a b where ab: "s = a @ ?l @ b" "\<forall>c\<in>set a. isspace U c" "\<forall>c\<in>set b. isspace U c"
    unfolding strip_def by (rule strip_with_decomp)
  have ia: "\<forall>c\<in>set a. inert U c" and ib: "\<forall>c\<in>set b. inert U c"
    using ab space_inert [OF ok] by auto
  have ne: "?l \<noteq> []" "\<not> startswith_hash ?l"
    using pl by (auto simp: parse_line_def Let_def split: if_splits)
  obtain i n where se: "re_search U None ?l = Some (i, n)"
    using pl ne by (cases "re_search U None ?l") (auto simp: parse_line_def Let_def)
  have d: "strip U (sub_spaces U False (strip_sp_hy (re_sub U ?l))) \<noteq> []"
    using pl ne se by (auto simp: parse_line_def Let_def split: if_splits)
  have "strip_sp_hy (re_sub U ?l) \<noteq> []"
  proof
    assume "strip_sp_hy (re_sub U ?l) = []"
    then have "strip U (sub_spaces U False (strip_sp_hy (re_sub U ?l))) = []"
      by (simp add: strip_def strip_with_def)
    with d show False by simp
  qed
  then obtain c where c: "c \<in> set (re_sub U ?l)" "\<not> (c = 32 \<or> c = 45)"
    unfolding strip_sp_hy_def strip_with_nonempty by blast
  have "re_search U None s = map_option (\<lambda>(i, n). (length a + i, n)) (re_search U None (?l @ b))"
    using re_search_prefix [OF ia, of "?l @ b"] ab(1) by simp
  then have ss: "re_search U None s = Some (length a + i, n)"
    using re_search_suffix [OF ib, of None ?l] se by simp
  have "re_sub U s = a @ re_sub_from U None 0 (?l @ b)"
    unfolding re_sub_def using re_sub_from_prefix [OF ia, of "?l @ b"] ab(1) by simp
  then have "re_sub U s = a @ re_sub U ?l @ b"
    unfolding re_sub_def using re_sub_from_suffix [OF ib, of 0 ?l None] by simp
  then have "c \<in> set (re_sub U s)" using c(1) by simp
  then have dv: "strip_sp_hy (re_sub U s) \<noteq> []"
    unfolding strip_sp_hy_def strip_with_nonempty using c(2) by blast
  obtain t' where "make_task U (take n (drop (length a + i) s)) (strip_sp_hy (re_sub U s)) = Inr t'"
    using make_task_no_error [OF ss] by blast
  then show ?thesis using ss dv by (simp add: validate_task_input_def Let_def)
qed

lemma validate_comment:
  assumes ok: "ucd_ok U" and h: "startswith_hash (strip U s)" and se: "re_search U None s \<noteq> None"
  shows "validate_task_input U s = Inr True"
proof -
  obtain r where r: "strip U s = 35 # r"
    using h by (cases "strip U s") auto
  have "35 \<in> set (strip U s)" using r by simp
  then have in_s: "35 \<in> set s" using set_strip_with [of "isspace U" s] by (auto simp: strip_def)
  have "\<not> pattern_char U 35"
    using ucd_ok_decimal [OF ok, of 35] by (simp add: pattern_char_def)
  then have "35 \<in> set (re_sub U s)"
    unfolding re_sub_def using re_sub_from_keeps [of 0 s U 35 None] in_s by simp
  then have dv: "strip_sp_hy (re_sub U s) \<noteq> []"
    unfolding strip_sp_hy_def strip_with_nonempty by (intro bexI [of _ 35]) simp_all
  obtain i n where ss: "re_search U None s = Some (i, n)" using se by auto
  obtain t' where "make_task U (take n (drop i s)) (strip_sp_hy (re_sub U s)) = Inr t'"
    using make_task_no_error [OF ss] by blast
  then show ?thesis using ss dv by (simp add: validate_task_input_def Let_def)
qed

text \<open>
  Where validation and parsing of a string without line feed agree. If the trimmed form
  is not empty and does not start with \<open>#\<close> and \<open>parse_tasks_from_text\<close> yields exactly
  one task, \<open>validate_task_input\<close> returns \<open>True\<close>. If the trimmed form starts with \<open>#\<close>
  and the string holds a time, \<open>validate_task_input\<close> returns \<open>True\<close> while
  \<open>parse_tasks_from_text\<close> yields no task.
\<close>

lemma validate_follows_parse:
  assumes "ucd_ok U" and "10 \<notin> set s"
  shows "(strip U s \<noteq> [] \<and> \<not> startswith_hash (strip U s)
            \<and> (\<exists>t lg. parse_tasks_from_text U s = (Inr [t], lg))
          \<longrightarrow> validate_task_input U s = Inr True)
       \<and> (startswith_hash (strip U s) \<and> re_search U None s \<noteq> None
          \<longrightarrow> validate_task_input U s = Inr True \<and> parse_tasks_from_text U s = (Inr [], []))"
proof -
  have p: "parse_tasks_from_text U s = parse_line U 1 s"
    using assms(2) by (rule parse_single_line)
  have a: "validate_task_input U s = Inr True"
    if "parse_tasks_from_text U s = (Inr [t], lg)" for t lg
    using validate_of_parse [OF assms(1), of 1 s t lg] that p by simp
  have b: "parse_tasks_from_text U s = (Inr [], [])" if "startswith_hash (strip U s)"
    using that p by (simp add: parse_line_def)
  show ?thesis using a b validate_comment [OF assms(1)] by blast
qed

text \<open>
  The converse: if \<open>validate_task_input\<close> returns \<open>True\<close>, the trimmed form does not
  start with \<open>#\<close>, and what is left of the string without its times has a character
  that is neither whitespace nor a hyphen, then \<open>parse_tasks_from_text\<close> yields exactly
  one task.
\<close>

lemma strip_with_keeps: "c \<in> set s \<Longrightarrow> \<not> P c \<Longrightarrow> c \<in> set (strip_with P s)"
proof -
  assume c: "c \<in> set s" "\<not> P c"
  obtain a b where ab: "s = a @ strip_with P s @ b" "\<forall>x\<in>set a. P x" "\<forall>x\<in>set b. P x"
    by (rule strip_with_decomp)
  have "c \<in> set (a @ strip_with P s @ b)" using c(1) ab(1) by simp
  then show ?thesis using c(2) ab(2,3) by auto
qed

lemma sub_spaces_keeps:
  "c \<in> set xs \<Longrightarrow> \<not> isspace U c \<Longrightarrow> c \<in> set (sub_spaces U f xs)"
  by (induction xs arbitrary: f) auto

lemma strip_context:
  assumes ok: "ucd_ok U"
  obtains a b where "\<forall>c\<in>set a. isspace U c" "\<forall>c\<in>set b. isspace U c"
    "re_search U None s = map_option (\<lambda>(i, n). (length a + i, n)) (re_search U None (strip U s))"
    "re_sub U s = a @ re_sub U (strip U s) @ b"
proof -
  let ?l = "strip U s"
  obtain a b where ab: "s = a @ ?l @ b" "\<forall>c\<in>set a. isspace U c" "\<forall>c\<in>set b. isspace U c"
    unfolding strip_def by (rule strip_with_decomp)
  have ia: "\<forall>c\<in>set a. inert U c" and ib: "\<forall>c\<in>set b. inert U c"
    using ab space_inert [OF ok] by auto
  have "re_search U None s = map_option (\<lambda>(i, n). (length a + i, n)) (re_search U None (?l @ b))"
    using re_search_prefix [OF ia, of "?l @ b"] ab(1) by simp
  then have se: "re_search U None s = map_option (\<lambda>(i, n). (length a + i, n)) (re_search U None ?l)"
    using re_search_suffix [OF ib, of None ?l] by simp
  have "re_sub U s = a @ re_sub_from U None 0 (?l @ b)"
    unfolding re_sub_def using re_sub_from_prefix [OF ia, of "?l @ b"] ab(1) by simp
  then have su: "re_sub U s = a @ re_sub U ?l @ b"
    unfolding re_sub_def using re_sub_from_suffix [OF ib, of 0 ?l None] by simp
  from ab(2,3) se su show thesis by (rule that)
qed

lemma parse_of_validate:
  assumes ok: "ucd_ok U"
    and nh: "\<not> startswith_hash (strip U s)"
    and v: "validate_task_input U s = Inr True"
    and c: "c \<in> set (re_sub U s)" "\<not> isspace U c" "c \<noteq> 45"
  shows "\<exists>t. parse_line U k s = (Inr [t], [LogParsed t])"
proof -
  let ?l = "strip U s"
  obtain a b where ab: "\<forall>c\<in>set a. isspace U c" "\<forall>c\<in>set b. isspace U c"
    "re_search U None s = map_option (\<lambda>(i, n). (length a + i, n)) (re_search U None ?l)"
    "re_sub U s = a @ re_sub U ?l @ b"
    by (rule strip_context [OF ok])
  have "re_search U None s \<noteq> None"
  proof
    assume "re_search U None s = None"
    then have "validate_task_input U s = Inr False" by (simp add: validate_task_input_def)
    with v show False by simp
  qed
  then obtain i n where se: "re_search U None ?l = Some (i, n)"
    using ab(3) by (cases "re_search U None ?l") auto
  then have ne: "?l \<noteq> []" by auto
  have cl: "c \<in> set (re_sub U ?l)" using c(1,2) ab(1,2,4) by auto
  have "isspace U 32" using ucd_ok_space [OF ok, of 32] by simp
  then have "c \<noteq> 32" using c(2) by auto
  then have "c \<in> set (strip_sp_hy (re_sub U ?l))"
    unfolding strip_sp_hy_def using cl c(3) by (intro strip_with_keeps) auto
  then have "c \<in> set (sub_spaces U False (strip_sp_hy (re_sub U ?l)))"
    using c(2) by (rule sub_spaces_keeps)
  then have "c \<in> set (strip U (sub_spaces U False (strip_sp_hy (re_sub U ?l))))"
    unfolding strip_def using c(2) by (rule strip_with_keeps)
  then have d: "strip U (sub_spaces U False (strip_sp_hy (re_sub U ?l))) \<noteq> []" by auto
  obtain t where "make_task U (take n (drop i ?l))
      (strip U (sub_spaces U False (strip_sp_hy (re_sub U ?l)))) = Inr t"
    using make_task_no_error [OF se] by blast
  then show ?thesis using se ne nh d by (simp add: parse_line_def Let_def)
qed

lemma validate_implies_parse:
  assumes "ucd_ok U" and "10 \<notin> set s" and "\<not> startswith_hash (strip U s)"
    and "validate_task_input U s = Inr True"
    and "\<exists>c\<in>set (re_sub U s). \<not> isspace U c \<and> c \<noteq> 45"
  shows "\<exists>t. parse_tasks_from_text U s = (Inr [t], [LogParsed t])"
proof -
  obtain c where c: "c \<in> set (re_sub U s)" "\<not> isspace U c" "c \<noteq> 45"
    using assms(5) by blast
  show ?thesis
    using parse_of_validate [OF assms(1,3,4) c, of 1] parse_single_line [OF assms(2), of U]
    by simp
qed

text \<open>
  Claim C10, evaluated where the code departs from it. The string \<open>10:00 -\<close>, tab, \<open>-\<close>
  has no line feed, and its trimmed form is not empty and does not start with \<open>#\<close>.
  \<open>validate_task_input\<close> returns \<open>True\<close> for it: what \<open>strip(' -')\<close> leaves is a tab.
  \<open>parse_tasks_from_text\<close> yields no task for it: it collapses and trims whitespace
  before it tests the description, finds it empty and logs a warning. For \<open>10:00 - \<close>,
  where only spaces and a hyphen are left, both reject.
\<close>

theorem validate_accepts_blank_remainder:
  "(10::nat) \<notin> set [49, 48, 58, 48, 48, 32, 45, 9, 45]
   \<and> strip ucd_sample [49, 48, 58, 48, 48, 32, 45, 9, 45] \<noteq> []
   \<and> \<not> startswith_hash (strip ucd_sample [49, 48, 58, 48, 48, 32, 45, 9, 45])
   \<and> strip_sp_hy (re_sub ucd_sample [49, 48, 58, 48, 48, 32, 45, 9, 45]) = [9]
   \<and> validate_task_input ucd_sample [49, 48, 58, 48, 48, 32, 45, 9, 45] = Inr True
   \<and> parse_tasks_from_text ucd_sample [49, 48, 58, 48, 48, 32, 45, 9, 45]
       = (Inr [], [LogEmptyDescription 1])
   \<and> validate_task_input ucd_sample [49, 48, 58, 48, 48, 32, 45, 32] = Inr False
   \<and> parse_tasks_from_text ucd_sample [49, 48, 58, 48, 48, 32, 45, 32]
       = (Inr [], [LogEmptyDescription 1])"
  by (simp add: eval_simps)

end
